theory Spec2Isabelle
  imports Main
begin

section \<open>Text\<close>

text \<open>
  A Python \<open>str\<close> is a sequence of Unicode code points and a \<open>bytes\<close> object a sequence
  of numbers below 256. Both are lists of naturals here; \<open>S\<close> turns an ASCII literal into
  the list of its code points.
\<close>

type_synonym pystr = "nat list"
type_synonym bytes = "nat list"

definition S :: "string \<Rightarrow> pystr" where
  "S cs = map of_char cs"

text \<open>
  \<open>str.lower()\<close>. The case table is modelled for ASCII and Latin-1, and for the two code
  points outside ASCII whose lower case contains an ASCII letter (U+0130, U+212A), so that
  a comparison of a lower-cased text with an ASCII literal is decided as Python decides
  it. Other code points are left as they are.
\<close>

definition lower_cp :: "nat \<Rightarrow> nat list" where
  "lower_cp c =
     (if 65 \<le> c \<and> c \<le> 90 then [c + 32]
      else if 192 \<le> c \<and> c \<le> 222 \<and> c \<noteq> 215 then [c + 32]
      else if c = 304 then [105, 775]
      else if c = 8490 then [107]
      else [c])"

definition lower :: "pystr \<Rightarrow> pystr" where
  "lower s = concat (map lower_cp s)"

text \<open>\<open>str(n)\<close> for an integer: its decimal digits, with a minus sign when negative.\<close>

fun show_nat :: "nat \<Rightarrow> pystr" where
  "show_nat n = (if n < 10 then [48 + n] else show_nat (n div 10) @ [48 + n mod 10])"

declare show_nat.simps [simp del]

definition show_int :: "int \<Rightarrow> pystr" where
  "show_int i = (if i < 0 then 45 # show_nat (nat (- i)) else show_nat (nat i))"

text \<open>\<open>str.isspace\<close> for one code point: the white space that \<open>strip()\<close> and \<open>split()\<close> remove.\<close>

definition isspace :: "nat \<Rightarrow> bool" where
  "isspace c \<longleftrightarrow>
     (9 \<le> c \<and> c \<le> 13) \<or> (28 \<le> c \<and> c \<le> 32) \<or> c = 133 \<or> c = 160 \<or> c = 5760 \<or>
     (8192 \<le> c \<and> c \<le> 8202) \<or> c = 8232 \<or> c = 8233 \<or> c = 8239 \<or> c = 8287 \<or> c = 12288"

definition strip :: "pystr \<Rightarrow> pystr" where
  "strip s = rev (dropWhile isspace (rev (dropWhile isspace s)))"

text \<open>\<open>s.split()\<close>: the runs of code points that are not white space.\<close>

fun split_ws_from :: "pystr \<Rightarrow> pystr \<Rightarrow> pystr list" where
  "split_ws_from cur [] = (if cur = [] then [] else [cur])"
| "split_ws_from cur (c # cs) =
     (if isspace c then (if cur = [] then split_ws_from [] cs else cur # split_ws_from [] cs)
      else split_ws_from (cur @ [c]) cs)"


text \<open>
  \<open>s.splitlines()\<close>: a line ends at a line boundary, \<open>\\r\\n\<close> counting as one, and there is
  no empty last line.
\<close>

definition linebreak :: "nat \<Rightarrow> bool" where
  "linebreak c \<longleftrightarrow> (10 \<le> c \<and> c \<le> 13) \<or> (28 \<le> c \<and> c \<le> 30) \<or> c = 133 \<or> c = 8232 \<or> c = 8233"






text \<open>
  \<open>binascii.a2b_base64\<close>, as \<open>base64.b64decode\<close> calls it (not strict): a character
  outside the alphabet is skipped, the input ends at the padding that completes a group of
  four, padding elsewhere is skipped, and an incomplete group at the end is an error.
  A \<open>str\<close> argument has to be ASCII.
\<close>

definition b64_value :: "nat \<Rightarrow> nat option" where
  "b64_value c =
     (if 65 \<le> c \<and> c \<le> 90 then Some (c - 65)
      else if 97 \<le> c \<and> c \<le> 122 then Some (c - 71)
      else if 48 \<le> c \<and> c \<le> 57 then Some (c + 4)
      else if c = 43 then Some 62
      else if c = 47 then Some 63
      else None)"

fun a2b_base64 :: "nat \<Rightarrow> nat \<Rightarrow> nat \<Rightarrow> bytes \<Rightarrow> bytes \<Rightarrow> bytes option" where
  "a2b_base64 quad_pos leftchar pads bin [] = (if quad_pos \<noteq> 0 then None else Some bin)"
| "a2b_base64 quad_pos leftchar pads bin (c # cs) =
     (if c = 61
      then (if quad_pos \<ge> 2 \<and> quad_pos + (pads + 1) \<ge> 4 then Some bin
            else a2b_base64 quad_pos leftchar (if quad_pos \<ge> 2 then pads + 1 else pads) bin cs)
      else (case b64_value c of
              None \<Rightarrow> a2b_base64 quad_pos leftchar pads bin cs
            | Some v \<Rightarrow>
                if quad_pos = 0 then a2b_base64 1 v 0 bin cs
                else if quad_pos = 1
                then a2b_base64 2 (v mod 16) 0 (bin @ [leftchar * 4 + v div 16]) cs
                else if quad_pos = 2
                then a2b_base64 3 (v mod 4) 0 (bin @ [leftchar * 16 + v div 4]) cs
                else a2b_base64 0 0 0 (bin @ [leftchar * 64 + v]) cs))"














text \<open>
  The encodings the claims speak of: \<open>base64.b64encode\<close>, its URL-safe variant, and
  \<open>str.encode("utf-8")\<close> of a text without surrogates.
\<close>

definition b64_char :: "nat \<Rightarrow> nat" where
  "b64_char i =
     (if i < 26 then 65 + i
      else if i < 52 then 71 + i
      else if i < 62 then i - 4
      else if i = 62 then 43
      else 47)"

fun b64encode :: "bytes \<Rightarrow> pystr" where
  "b64encode [] = []"
| "b64encode [a] = [b64_char (a div 4), b64_char ((a mod 4) * 16), 61, 61]"
| "b64encode [a, b] =
     [b64_char (a div 4), b64_char ((a mod 4) * 16 + b div 16), b64_char ((b mod 16) * 4), 61]"
| "b64encode (a # b # c # bs) =
     [b64_char (a div 4), b64_char ((a mod 4) * 16 + b div 16),
      b64_char ((b mod 16) * 4 + c div 64), b64_char (c mod 64)] @ b64encode bs"

definition scalar :: "nat \<Rightarrow> bool" where
  "scalar c \<longleftrightarrow> c < 55296 \<or> (57344 \<le> c \<and> c < 1114112)"

definition utf8_char :: "nat \<Rightarrow> bytes" where
  "utf8_char c =
     (if c < 128 then [c]
      else if c < 2048 then [192 + c div 64, 128 + c mod 64]
      else if c < 65536 then [224 + c div 4096, 128 + (c div 64) mod 64, 128 + c mod 64]
      else [240 + c div 262144, 128 + (c div 4096) mod 64, 128 + (c div 64) mod 64,
            128 + c mod 64])"

definition utf8_encode :: "pystr \<Rightarrow> bytes" where
  "utf8_encode s = concat (map utf8_char s)"


section \<open>Proxy records and the Shadowsocks decoder\<close>

text \<open>
  A proxy record is a \<open>dict\<close> with \<open>str\<close> keys, in the order of insertion; its values
  are the values Python and JSON have (floats left out).
\<close>

datatype pyval = PNone | PBool bool | PInt int | PStr pystr
  | PList "pyval list" | PDict "(pystr \<times> pyval) list"












section \<open>Configuration documents\<close>

text \<open>
  \<open>yaml.load\<close> builds Python objects: scalars, and lists and dicts that are mutable
  objects with an identity. An alias (\<open>*a\<close>) of an anchored node (\<open>&a\<close>) is the
  same object as the node, and \<open>update_yaml\<close> edits lists in place, so the loaded document
  is a store of objects and values that refer to them. An address is an index of the
  store; allocation appends. Floats are left out.
\<close>

datatype yval = YNull | YBool bool | YInt int | YStr pystr | YRef nat

datatype yobj = OList "yval list" | ODict "(yval \<times> yval) list"

type_synonym heap = "yobj list"

definition obj_at :: "heap \<Rightarrow> nat \<Rightarrow> yobj option" where
  "obj_at h a = (if a < length h then Some (h ! a) else None)"

text \<open>\<open>isinstance(v, list)\<close> and \<open>isinstance(v, dict)\<close>, with the object's address and content.\<close>

definition list_at :: "heap \<Rightarrow> yval \<Rightarrow> (nat \<times> yval list) option" where
  "list_at h v =
     (case v of
        YRef a \<Rightarrow> (case obj_at h a of Some (OList xs) \<Rightarrow> Some (a, xs) | _ \<Rightarrow> None)
      | _ \<Rightarrow> None)"

definition dict_at :: "heap \<Rightarrow> yval \<Rightarrow> (nat \<times> (yval \<times> yval) list) option" where
  "dict_at h v =
     (case v of
        YRef a \<Rightarrow> (case obj_at h a of Some (ODict kvs) \<Rightarrow> Some (a, kvs) | _ \<Rightarrow> None)
      | _ \<Rightarrow> None)"

text \<open>
  \<open>type(v).__name__\<close> differs between the YAML engines (\<open>list\<close> or \<open>CommentedSeq\<close>, ...),
  so the model keeps the shape it names. A reference outside the store does not occur in
  a loaded document.
\<close>

datatype kind = KNone | KBool | KInt | KStr | KList | KDict | KUnallocated

definition kind_of :: "heap \<Rightarrow> yval \<Rightarrow> kind" where
  "kind_of h v =
     (case v of
        YNull \<Rightarrow> KNone
      | YBool _ \<Rightarrow> KBool
      | YInt _ \<Rightarrow> KInt
      | YStr _ \<Rightarrow> KStr
      | YRef a \<Rightarrow> (case obj_at h a of
                     Some (OList _) \<Rightarrow> KList
                   | Some (ODict _) \<Rightarrow> KDict
                   | None \<Rightarrow> KUnallocated))"

text \<open>
  \<open>TypeError key k\<close> is the error \<open>Expected '<key>' to be a list, got <k>\<close>;
  \<open>AttributeError\<close> is raised by \<open>data.get\<close> when the loaded document is not a mapping.
\<close>

datatype error = TypeError pystr kind | AttributeError

text \<open>Truth value of a loaded value, for \<open>yaml.load(f) or {}\<close>.\<close>

definition falsy :: "heap \<Rightarrow> yval \<Rightarrow> bool" where
  "falsy h v =
     (case v of
        YNull \<Rightarrow> True
      | YBool b \<Rightarrow> \<not> b
      | YInt i \<Rightarrow> i = 0
      | YStr s \<Rightarrow> s = []
      | YRef a \<Rightarrow> (case obj_at h a of
                     Some (OList xs) \<Rightarrow> xs = []
                   | Some (ODict kvs) \<Rightarrow> kvs = []
                   | None \<Rightarrow> False))"

text \<open>\<open>d[k] = v\<close>: an existing key keeps its place, a new one goes to the end.\<close>

fun dict_set :: "(yval \<times> yval) list \<Rightarrow> yval \<Rightarrow> yval \<Rightarrow> (yval \<times> yval) list" where
  "dict_set [] k v = [(k, v)]"
| "dict_set ((k', v') # kvs) k v =
     (if k' = k then (k', v) # kvs else (k', v') # dict_set kvs k v)"

text \<open>
  \<open>str(v)\<close> of a scalar. The text of a container is its \<open>repr\<close>, which depends on the
  YAML engine and is never the name of a group type; it is \<open>None\<close> here.
\<close>

definition py_str :: "yval \<Rightarrow> pystr option" where
  "py_str v =
     (case v of
        YNull \<Rightarrow> Some (S ''None'')
      | YBool b \<Rightarrow> Some (if b then S ''True'' else S ''False'')
      | YInt i \<Rightarrow> Some (show_int i)
      | YStr s \<Rightarrow> Some s
      | YRef _ \<Rightarrow> None)"

text \<open>
  The inner loop of \<open>update_yaml\<close>:
  \<^verbatim>\<open>for name in names_to_add:
    if name not in group_proxies:
        group_proxies.append(name)\<close>
  A name is a \<open>str\<close>, and a \<open>str\<close> equals a list element only when the element is the
  same text.
\<close>

fun add_names :: "yval list \<Rightarrow> pystr list \<Rightarrow> yval list" where
  "add_names group_proxies [] = group_proxies"
| "add_names group_proxies (name # names) =
     add_names (if YStr name \<in> set group_proxies then group_proxies
                else group_proxies @ [YStr name]) names"

text \<open>
  The body of \<open>for group in groups\<close>, for one group; \<open>continue\<close> leaves the store as
  it is. \<open>group_type\<close> is \<open>str(group.get("type", "")).lower()\<close>.
\<close>

definition group_type :: "(yval \<times> yval) list \<Rightarrow> pystr option" where
  "group_type gkvs =
     map_option lower
       (py_str (case map_of gkvs (YStr (S ''type'')) of None \<Rightarrow> YStr [] | Some t \<Rightarrow> t))"

definition is_speed_group :: "pystr option \<Rightarrow> bool" where
  "is_speed_group t \<longleftrightarrow>
     t \<in> {Some (S ''url-test''), Some (S ''fallback''), Some (S ''load-balance'')}"

definition is_manual_group :: "pystr option \<Rightarrow> bool" where
  "is_manual_group t \<longleftrightarrow> t = Some (S ''select'')"

definition names_to_add :: "(yval \<times> yval) list \<Rightarrow> pystr list \<Rightarrow> bool \<Rightarrow> bool \<Rightarrow> pystr list" where
  "names_to_add gkvs names add_to_speedtest add_to_manual =
     (if add_to_speedtest \<and> is_speed_group (group_type gkvs) then names
      else if add_to_manual \<and> is_manual_group (group_type gkvs) then names
      else [])"

definition merge_group :: "heap \<Rightarrow> yval \<Rightarrow> pystr list \<Rightarrow> bool \<Rightarrow> bool \<Rightarrow> heap" where
  "merge_group h grp names add_to_speedtest add_to_manual =
     (case dict_at h grp of
        None \<Rightarrow> h
      | Some (g, gkvs) \<Rightarrow>
          (case map_of gkvs (YStr (S ''proxies'')) of
             None \<Rightarrow> h
           | Some gp \<Rightarrow>
               (case list_at h gp of
                  None \<Rightarrow> h
                | Some (p, group_proxies) \<Rightarrow>
                    h[p := OList (add_names group_proxies
                                    (names_to_add gkvs names add_to_speedtest add_to_manual))])))"

text \<open>
  \<open>os.path.splitext\<close> of \<open>posixpath\<close>: the extension starts at the last dot of the last
  path component, unless that component has only dots before it.
\<close>

definition rfind :: "pystr \<Rightarrow> nat \<Rightarrow> int" where
  "rfind p c =
     (if c \<in> set p
      then int (length p) - 1 - int (length (takeWhile (\<lambda>x. x \<noteq> c) (rev p)))
      else - 1)"

definition splitext :: "pystr \<Rightarrow> pystr \<times> pystr" where
  "splitext p =
     (let sepIndex = rfind p 47; dotIndex = rfind p 46
      in if dotIndex > sepIndex \<and>
            list_ex (\<lambda>c. c \<noteq> 46)
              (take (nat (dotIndex - (sepIndex + 1))) (drop (nat (sepIndex + 1)) p))
         then (take (nat dotIndex) p, drop (nat dotIndex) p)
         else (p, []))"

text \<open>
  \<open>for group in groups\<close> walks the list object by index and reads it again at every
  step, as Python's list iterator does: when the list of groups is also the \<open>proxies\<close>
  list of one of its groups, the names appended to it are visited too.
\<close>

definition seq_of :: "heap \<Rightarrow> nat \<Rightarrow> yval list option" where
  "seq_of h a = (case obj_at h a of Some (OList xs) \<Rightarrow> Some xs | _ \<Rightarrow> None)"

lemma add_names_measure:
  "finite N \<Longrightarrow> set names \<subseteq> N \<Longrightarrow>
   length (add_names ps names) + card (YStr ` N - set (add_names ps names))
     \<le> length ps + card (YStr ` N - set ps)"
proof (induction names arbitrary: ps)
  case Nil
  then show ?case by simp
next
  case (Cons n names)
  show ?case
  proof (cases "YStr n \<in> set ps")
    case True
    with Cons show ?thesis by simp
  next
    case False
    have fin: "finite (YStr ` N - set ps)" using Cons.prems by simp
    have mem: "YStr n \<in> YStr ` N - set ps" using False Cons.prems by auto
    have eq: "YStr ` N - set (ps @ [YStr n]) = (YStr ` N - set ps) - {YStr n}" by auto
    have "card ((YStr ` N - set ps) - {YStr n}) + 1 = card (YStr ` N - set ps)"
      using fin mem by (metis Suc_eq_plus1 card_Suc_Diff1)
    moreover have "length (add_names (ps @ [YStr n]) names)
        + card (YStr ` N - set (add_names (ps @ [YStr n]) names))
        \<le> length (ps @ [YStr n]) + card (YStr ` N - set (ps @ [YStr n]))"
      using Cons.IH [of "ps @ [YStr n]"] Cons.prems by simp
    ultimately show ?thesis using False eq by simp
  qed
qed

lemma merge_group_shape:
  "merge_group h g names spd man = h \<or>
   (\<exists>gd gkvs gp p ps.
      dict_at h g = Some (gd, gkvs) \<and> map_of gkvs (YStr (S ''proxies'')) = Some gp \<and>
      list_at h gp = Some (p, ps) \<and>
      merge_group h g names spd man = h[p := OList (add_names ps (names_to_add gkvs names spd man))])"
  by (auto simp: merge_group_def split: option.splits)

lemma names_to_add_subset: "set (names_to_add gkvs names spd man) \<subseteq> set names"
  by (auto simp: names_to_add_def)

lemma merge_group_seq:
  assumes "seq_of h gl = Some gs"
  shows "\<exists>gs'. seq_of (merge_group h g names spd man) gl = Some gs' \<and>
           length gs' + card (YStr ` set names - set gs')
             \<le> length gs + card (YStr ` set names - set gs)"
proof -
  have upd: "\<exists>gs'. seq_of (h[p := OList (add_names ps ns)]) gl = Some gs' \<and>
           length gs' + card (YStr ` set names - set gs')
             \<le> length gs + card (YStr ` set names - set gs)"
    if "list_at h gp = Some (p, ps)" and "set ns \<subseteq> set names" for gp p ps ns
  proof (cases "p = gl")
    case True
    from that(1) assms True have "ps = gs" and "gl < length h"
      by (auto simp: list_at_def seq_of_def obj_at_def
               split: yval.splits option.splits yobj.splits if_splits)
    then show ?thesis
      using True add_names_measure [of "set names" ns gs] that(2)
      by (simp add: seq_of_def obj_at_def)
  next
    case False
    then have "seq_of (h[p := OList (add_names ps ns)]) gl = seq_of h gl"
      by (simp add: seq_of_def obj_at_def)
    then show ?thesis using assms by simp
  qed
  from merge_group_shape [of h g names spd man] show ?thesis
  proof
    assume "merge_group h g names spd man = h"
    then show ?thesis using assms by simp
  next
    assume "\<exists>gd gkvs gp p ps.
      dict_at h g = Some (gd, gkvs) \<and> map_of gkvs (YStr (S ''proxies'')) = Some gp \<and>
      list_at h gp = Some (p, ps) \<and>
      merge_group h g names spd man = h[p := OList (add_names ps (names_to_add gkvs names spd man))]"
    then obtain gkvs gp p ps where
      "list_at h gp = Some (p, ps)"
      "merge_group h g names spd man = h[p := OList (add_names ps (names_to_add gkvs names spd man))]"
      by blast
    then show ?thesis
      using upd [of gp p ps "names_to_add gkvs names spd man"] names_to_add_subset [of gkvs names spd man]
      by auto
  qed
qed

function merge_groups :: "heap \<Rightarrow> nat \<Rightarrow> nat \<Rightarrow> pystr list \<Rightarrow> bool \<Rightarrow> bool \<Rightarrow> heap" where
  "merge_groups h groups i names add_to_speedtest add_to_manual =
     (case seq_of h groups of
        None \<Rightarrow> h
      | Some gs \<Rightarrow>
          if i < length gs
          then merge_groups (merge_group h (gs ! i) names add_to_speedtest add_to_manual)
                 groups (Suc i) names add_to_speedtest add_to_manual
          else h)"
  by pat_completeness auto
termination
proof (relation "measure (\<lambda>(h, groups, i, names, s, m).
         case seq_of h groups of
           None \<Rightarrow> 0
         | Some gs \<Rightarrow> length gs + card (YStr ` set names - set gs) - i)")
  show "wf (measure (\<lambda>(h, groups, i, names, s, m).
         case seq_of h groups of
           None \<Rightarrow> 0
         | Some gs \<Rightarrow> length gs + card (YStr ` set names - set gs) - i))"
    by simp
next
  fix h :: heap and groups i :: nat and names :: "pystr list" and s m :: bool and gs
  assume a: "seq_of h groups = Some gs" "i < length gs"
  from merge_group_seq [OF a(1), of "gs ! i" names s m]
  obtain gs' where g: "seq_of (merge_group h (gs ! i) names s m) groups = Some gs'"
    "length gs' + card (YStr ` set names - set gs')
       \<le> length gs + card (YStr ` set names - set gs)"
    by blast
  then show "((merge_group h (gs ! i) names s m, groups, Suc i, names, s, m),
              (h, groups, i, names, s, m))
        \<in> measure (\<lambda>(h, groups, i, names, s, m).
         case seq_of h groups of
           None \<Rightarrow> 0
         | Some gs \<Rightarrow> length gs + card (YStr ` set names - set gs) - i)"
    using a by simp
qed

declare merge_groups.simps [simp del]

text \<open>
  The stages of \<open>update_yaml\<close>. First \<open>data.get("proxies")\<close>, with a new empty list
  stored under the key when the key is missing or \<open>None\<close>.
\<close>

definition ensure_proxies :: "heap \<Rightarrow> nat \<Rightarrow> (yval \<times> yval) list \<Rightarrow> heap \<times> yval" where
  "ensure_proxies h d kvs =
     (let fresh = (h[d := ODict (dict_set kvs (YStr (S ''proxies'')) (YRef (length h)))]
                     @ [OList []],
                   YRef (length h))
      in case map_of kvs (YStr (S ''proxies'')) of
           None \<Rightarrow> fresh
         | Some v \<Rightarrow> if v = YNull then fresh else (h, v))"

text \<open>
  The block \<open>if add_to_speedtest or add_to_manual: ...\<close>; a missing \<open>proxy-groups\<close>
  key reads as the empty list, over which the loop does nothing.
\<close>

definition add_to_groups :: "heap \<Rightarrow> yval \<Rightarrow> pystr list \<Rightarrow> bool \<Rightarrow> bool \<Rightarrow> error + heap" where
  "add_to_groups h data names add_to_speedtest add_to_manual =
     (if add_to_speedtest \<or> add_to_manual
      then (case (case dict_at h data of
                    None \<Rightarrow> None
                  | Some (d, kvs) \<Rightarrow> map_of kvs (YStr (S ''proxy-groups''))) of
              None \<Rightarrow> Inr h
            | Some groups \<Rightarrow>
                (case list_at h groups of
                   None \<Rightarrow> Inl (TypeError (S ''proxy-groups'') (kind_of h groups))
                 | Some (gl, gs) \<Rightarrow>
                     Inr (merge_groups h gl 0 names add_to_speedtest add_to_manual)))
      else Inr h)"

text \<open>The output path: the one given, unless it is \<open>None\<close> or empty.\<close>

definition resolve_output :: "pystr \<Rightarrow> pystr option \<Rightarrow> pystr" where
  "resolve_output config_path output_path =
     (case (case output_path of
              None \<Rightarrow> None
            | Some path \<Rightarrow> if path = [] then None else Some path) of
        Some path \<Rightarrow> path
      | None \<Rightarrow>
          (case splitext config_path of
             (base, ext) \<Rightarrow> base @ S ''_merged'' @ (if ext = [] then S ''.yaml'' else ext)))"

text \<open>\<open>yaml.load(f) or {}\<close>: a loaded value that is false gives way to a new empty dict.\<close>

definition or_empty :: "heap \<Rightarrow> yval \<Rightarrow> heap \<times> yval" where
  "or_empty h0 loaded =
     (if falsy h0 loaded then (h0 @ [ODict []], YRef (length h0)) else (h0, loaded))"

text \<open>
  \<open>update_yaml\<close>, from the value \<open>yaml.load\<close> returned (\<open>loaded\<close>, in the store \<open>h0\<close>)
  to the call of \<open>yaml.dump\<close>. A new proxy is a dict with a \<open>name\<close> that is a \<open>str\<close>, as
  the decoders build it: it is given by that name and by the address of the dict. The
  result \<open>Inl e\<close> is the exception \<open>e\<close>, raised before the output file is opened;
  \<open>Inr (path, h, data)\<close> is the one write of the call: the document \<open>data\<close> of the
  store \<open>h\<close>, dumped to \<open>path\<close>.
\<close>

definition update_yaml ::
  "heap \<Rightarrow> yval \<Rightarrow> pystr \<Rightarrow> (pystr \<times> nat) list \<Rightarrow> bool \<Rightarrow> bool \<Rightarrow> pystr option
     \<Rightarrow> error + (pystr \<times> heap \<times> yval)" where
  "update_yaml h0 loaded config_path proxies add_to_speedtest add_to_manual output_path =
     (case or_empty h0 loaded of
        (h1, data) \<Rightarrow>
          (case dict_at h1 data of
             None \<Rightarrow> Inl AttributeError
           | Some (d, kvs) \<Rightarrow>
               (case ensure_proxies h1 d kvs of
                  (h2, proxies_section) \<Rightarrow>
                    (case list_at h2 proxies_section of
                       None \<Rightarrow> Inl (TypeError (S ''proxies'') (kind_of h2 proxies_section))
                     | Some (l, xs) \<Rightarrow>
                         (case add_to_groups
                                 (h2[l := OList (xs @ map (\<lambda>p. YRef (snd p)) proxies)])
                                 data (map fst proxies) add_to_speedtest add_to_manual of
                            Inl e \<Rightarrow> Inl e
                          | Inr h4 \<Rightarrow>
                              Inr (resolve_output config_path output_path, h4, data))))))"

text \<open>
  A sequence of merge calls, each reading the document the call before it wrote: dumping
  the objects and loading them again gives the same objects with the same sharing.
\<close>

type_synonym call = "pystr \<times> (pystr \<times> nat) list \<times> bool \<times> bool \<times> pystr option"

fun merge_calls :: "heap \<Rightarrow> yval \<Rightarrow> call list \<Rightarrow> error + (heap \<times> yval)" where
  "merge_calls h doc [] = Inr (h, doc)"
| "merge_calls h doc ((config_path, proxies, add_to_speedtest, add_to_manual, output_path) # calls) =
     (case update_yaml h doc config_path proxies add_to_speedtest add_to_manual output_path of
        Inl e \<Rightarrow> Inl e
      | Inr (path, h', doc') \<Rightarrow> merge_calls h' doc' calls)"

text \<open>
  \<open>group_of h doc gkvs v\<close>: in the document \<open>doc\<close>, the list under \<open>proxy-groups\<close> has
  a mapping with the entries \<open>gkvs\<close>, whose \<open>proxies\<close> entry is the list \<open>v\<close>.
\<close>

definition group_of :: "heap \<Rightarrow> yval \<Rightarrow> (yval \<times> yval) list \<Rightarrow> yval \<Rightarrow> bool" where
  "group_of h doc gkvs v \<longleftrightarrow>
     (\<exists>d kvs groups gl gs g gd a xs.
        dict_at h doc = Some (d, kvs) \<and>
        map_of kvs (YStr (S ''proxy-groups'')) = Some groups \<and>
        list_at h groups = Some (gl, gs) \<and> g \<in> set gs \<and>
        dict_at h g = Some (gd, gkvs) \<and>
        map_of gkvs (YStr (S ''proxies'')) = Some v \<and>
        list_at h v = Some (a, xs))"

text \<open>
  A document with one group of type \<open>select\<close> and the given members, and the dicts of
  two new proxies, \<open>A\<close> at address 5 and \<open>B\<close> at address 6.
\<close>

definition group_doc :: "yval list \<Rightarrow> heap" where
  "group_doc members =
     [ODict [(YStr (S ''proxies''), YRef 1), (YStr (S ''proxy-groups''), YRef 2)],
      OList [],
      OList [YRef 3],
      ODict [(YStr (S ''name''), YStr (S ''PROXY'')), (YStr (S ''type''), YStr (S ''select'')),
             (YStr (S ''proxies''), YRef 4)],
      OList members,
      ODict [(YStr (S ''name''), YStr (S ''A''))],
      ODict [(YStr (S ''name''), YStr (S ''B''))]]"

text \<open>
  The content of a value, as a dump shows it: the objects it refers to, unfolded to a
  depth (an alias can make a document cyclic), with \<open>TMore\<close> where the depth ends.
\<close>

datatype tree = TNull | TBool bool | TInt int | TStr pystr
  | TList "tree list" | TDict "(tree \<times> tree) list" | TMore

fun tree_of :: "nat \<Rightarrow> heap \<Rightarrow> yval \<Rightarrow> tree" where
  "tree_of n h YNull = TNull"
| "tree_of n h (YBool b) = TBool b"
| "tree_of n h (YInt i) = TInt i"
| "tree_of n h (YStr s) = TStr s"
| "tree_of 0 h (YRef a) = TMore"
| "tree_of (Suc n) h (YRef a) =
     (case obj_at h a of
        None \<Rightarrow> TMore
      | Some (OList xs) \<Rightarrow> TList (map (tree_of n h) xs)
      | Some (ODict kvs) \<Rightarrow> TDict (map (\<lambda>(k, v). (tree_of n h k, tree_of n h v)) kvs))"

text \<open>The objects a value refers to, directly or through other objects.\<close>

inductive_set reach :: "heap \<Rightarrow> yval \<Rightarrow> nat set" for h :: heap and v :: yval where
  start: "v = YRef a \<Longrightarrow> a \<in> reach h v"
| in_list: "a \<in> reach h v \<Longrightarrow> obj_at h a = Some (OList xs) \<Longrightarrow> YRef b \<in> set xs \<Longrightarrow> b \<in> reach h v"
| in_dict: "a \<in> reach h v \<Longrightarrow> obj_at h a = Some (ODict kvs) \<Longrightarrow> (k, w) \<in> set kvs \<Longrightarrow>
            k = YRef b \<or> w = YRef b \<Longrightarrow> b \<in> reach h v"

text \<open>
  The lists that \<open>update_yaml\<close> appends to, in a document with the root entries \<open>kvs\<close>:
  the \<open>proxies\<close> list of the root, and the \<open>proxies\<close> list of every mapping in the list
  under \<open>proxy-groups\<close>. (That list can be the \<open>proxies\<close> list itself, through an
  alias; then the dicts of the new proxies are in it.)
\<close>

definition merge_target :: "heap \<Rightarrow> (yval \<times> yval) list \<Rightarrow> (pystr \<times> nat) list \<Rightarrow> nat \<Rightarrow> bool" where
  "merge_target h kvs proxies a \<longleftrightarrow>
     map_of kvs (YStr (S ''proxies'')) = Some (YRef a) \<or>
     (\<exists>g gd gkvs.
        dict_at h g = Some (gd, gkvs) \<and> map_of gkvs (YStr (S ''proxies'')) = Some (YRef a) \<and>
        (g \<in> (\<lambda>p. YRef (snd p)) ` set proxies \<or>
         (\<exists>groups gl gs. map_of kvs (YStr (S ''proxy-groups'')) = Some groups \<and>
            list_at h groups = Some (gl, gs) \<and> g \<in> set gs)))"

text \<open>
  A document with a third key, \<open>rules\<close>, bound to \<open>w\<close>: to a list of its own
  (\<open>YRef 5\<close>), or, as an alias does it, to the list of members of the group (\<open>YRef 4\<close>).
  The dict of the new proxy \<open>A\<close> is at address 6.
\<close>

definition extra_doc :: "yval \<Rightarrow> heap" where
  "extra_doc w =
     [ODict [(YStr (S ''proxies''), YRef 1), (YStr (S ''proxy-groups''), YRef 2),
             (YStr (S ''rules''), w)],
      OList [],
      OList [YRef 3],
      ODict [(YStr (S ''name''), YStr (S ''PROXY'')), (YStr (S ''type''), YStr (S ''select'')),
             (YStr (S ''proxies''), YRef 4)],
      OList [YStr (S ''DIRECT'')],
      OList [YStr (S ''MATCH,PROXY'')],
      ODict [(YStr (S ''name''), YStr (S ''A''))]]"

text \<open>A value of a loaded document refers to an object of the store, if it refers at all.\<close>

definition allocated :: "heap \<Rightarrow> yval \<Rightarrow> bool" where
  "allocated h v = (case v of YRef a \<Rightarrow> a < length h | _ \<Rightarrow> True)"

section \<open>The store under the steps of the merge\<close>

lemma obj_at_upd: "obj_at (h[a := ob]) b = (if b = a \<and> a < length h then Some ob else obj_at h b)"
  by (simp add: obj_at_def)

lemma obj_at_app: "obj_at (h @ [ob]) b = (if b = length h then Some ob else obj_at h b)"
  by (auto simp: obj_at_def nth_append)

lemma map_of_dict_set: "map_of (dict_set kvs k v) k' = (if k' = k then Some v else map_of kvs k')"
  by (induction kvs k v rule: dict_set.induct) auto

lemma list_at_upd_list:
  "list_at (h[l := OList ys]) v = (if v = YRef l \<and> l < length h then Some (l, ys) else list_at h v)"
  by (cases v) (simp_all add: list_at_def obj_at_upd)

lemma dict_at_upd_list:
  "dict_at (h[l := OList ys]) v = (if v = YRef l \<and> l < length h then None else dict_at h v)"
  by (cases v) (simp_all add: dict_at_def obj_at_upd)

lemma list_at_upd_dict:
  "list_at (h[d := ODict kvs]) v = (if v = YRef d \<and> d < length h then None else list_at h v)"
  by (cases v) (simp_all add: list_at_def obj_at_upd)

lemma dict_at_upd_dict:
  "dict_at (h[d := ODict kvs]) v = (if v = YRef d \<and> d < length h then Some (d, kvs) else dict_at h v)"
  by (cases v) (simp_all add: dict_at_def obj_at_upd)

lemma kind_of_upd_list:
  "list_at h (YRef l) = Some (l, xs) \<Longrightarrow> kind_of (h[l := OList ys]) v = kind_of h v"
  by (cases v) (auto simp: kind_of_def list_at_def obj_at_upd split: option.splits yobj.splits)

lemma kind_of_upd_dict:
  "dict_at h (YRef d) = Some (d, kvs) \<Longrightarrow> kind_of (h[d := ODict kvs']) v = kind_of h v"
  by (cases v) (auto simp: kind_of_def dict_at_def obj_at_upd split: option.splits yobj.splits)

lemma list_at_app: "allocated h v \<Longrightarrow> list_at (h @ [ob]) v = list_at h v"
  by (cases v) (simp_all add: list_at_def obj_at_app allocated_def)

lemma dict_at_app: "allocated h v \<Longrightarrow> dict_at (h @ [ob]) v = dict_at h v"
  by (cases v) (simp_all add: dict_at_def obj_at_app allocated_def)

lemma kind_of_app: "allocated h v \<Longrightarrow> kind_of (h @ [ob]) v = kind_of h v"
  by (cases v) (simp_all add: kind_of_def obj_at_app allocated_def)

lemma list_at_ref: "list_at h v = Some (l, xs) \<Longrightarrow> v = YRef l \<and> l < length h \<and> h ! l = OList xs"
  by (cases v) (auto simp: list_at_def obj_at_def split: option.splits yobj.splits if_splits)

lemma dict_at_ref: "dict_at h v = Some (d, kvs) \<Longrightarrow> v = YRef d \<and> d < length h \<and> h ! d = ODict kvs"
  by (cases v) (auto simp: dict_at_def obj_at_def split: option.splits yobj.splits if_splits)

lemma allocated_upd [simp]: "allocated (h[a := ob]) v = allocated h v"
  by (cases v) (simp_all add: allocated_def)

lemma S_neq [simp]: "S ''proxies'' \<noteq> S ''proxy-groups''" "S ''proxy-groups'' \<noteq> S ''proxies''"
  by (simp_all add: S_def)

text \<open>What ensure_proxies leaves of a value that is no list.\<close>

lemma ensure_proxies_keeps:
  assumes "dict_at h (YRef d) = Some (d, kvs)" and "ensure_proxies h d kvs = (h2, ps)"
    and "allocated h v"
  shows "allocated h2 v" and "list_at h v = None \<Longrightarrow> list_at h2 v = None"
    and "kind_of h2 v = kind_of h v"
    and "\<exists>kvs2. dict_at h2 (YRef d) = Some (d, kvs2) \<and>
           (\<forall>k. k \<noteq> YStr (S ''proxies'') \<longrightarrow> map_of kvs2 k = map_of kvs k)"
proof -
  from dict_at_ref [OF assms(1)] have d: "d < length h" by simp
  have vne: "v \<noteq> YRef (length h)" using assms(3) by (auto simp: allocated_def)
  consider (old) "h2 = h" | (new) "h2 = h[d := ODict (dict_set kvs (YStr (S ''proxies'')) (YRef (length h)))] @ [OList []]"
    using assms(2) by (auto simp: ensure_proxies_def Let_def split: option.splits if_splits)
  note c = this
  show "allocated h2 v" using c assms(3) by cases (cases v; simp add: allocated_def)+
  show "list_at h v = None \<Longrightarrow> list_at h2 v = None"
    using c assms(3) by cases (simp_all add: list_at_app list_at_upd_dict)
  show "kind_of h2 v = kind_of h v"
    using c assms(1,3) by cases (simp_all add: kind_of_app kind_of_upd_dict)
  show "\<exists>kvs2. dict_at h2 (YRef d) = Some (d, kvs2) \<and>
           (\<forall>k. k \<noteq> YStr (S ''proxies'') \<longrightarrow> map_of kvs2 k = map_of kvs k)"
    using c assms(1) d
    by cases (simp_all add: dict_at_app allocated_def dict_at_upd_dict map_of_dict_set)
qed

section \<open>What the loop over the groups does to the store\<close>

text \<open>
  \<open>extends xs zs\<close>: the list \<open>zs\<close> is \<open>xs\<close> with names appended, none of them raising
  the number of its occurrences above one. \<open>named h h'\<close>: the store \<open>h'\<close> is \<open>h\<close> with
  some lists extended in this way.
\<close>

lemma add_names_app: "\<exists>ys. add_names ps ns = ps @ ys \<and> set ys \<subseteq> YStr ` set ns"
proof (induction ns arbitrary: ps)
  case Nil
  then show ?case by simp
next
  case (Cons n ns)
  show ?case
  proof (cases "YStr n \<in> set ps")
    case True
    with Cons [of ps] show ?thesis by auto
  next
    case False
    from Cons [of "ps @ [YStr n]"] obtain ys
      where "add_names (ps @ [YStr n]) ns = (ps @ [YStr n]) @ ys" "set ys \<subseteq> YStr ` set ns"
      by blast
    with False have "add_names ps (n # ns) = ps @ (YStr n # ys) \<and> set (YStr n # ys) \<subseteq> YStr ` set (n # ns)"
      by auto
    then show ?thesis by blast
  qed
qed

lemma add_names_count:
  "count_list (add_names ps ns) (YStr n) \<le> max 1 (count_list ps (YStr n))"
proof (induction ns arbitrary: ps)
  case Nil
  then show ?case by simp
next
  case (Cons m ns)
  show ?case
  proof (cases "YStr m \<in> set ps")
    case True
    with Cons [of ps] show ?thesis by simp
  next
    case False
    have "count_list (ps @ [YStr m]) (YStr n) \<le> max 1 (count_list ps (YStr n))"
      using False by (cases "m = n") (simp_all add: count_list_0_iff)
    with Cons [of "ps @ [YStr m]"] False show ?thesis by simp
  qed
qed

lemma add_names_has: "YStr ` set ns \<subseteq> set (add_names ps ns)"
proof (induction ns arbitrary: ps)
  case Nil
  then show ?case by simp
next
  case (Cons m ns)
  from add_names_app [of "if YStr m \<in> set ps then ps else ps @ [YStr m]" ns]
  have "YStr m \<in> set (add_names ps (m # ns))" by auto
  with Cons show ?case by auto
qed

definition extends :: "yval list \<Rightarrow> yval list \<Rightarrow> bool" where
  "extends xs zs \<longleftrightarrow>
     (\<exists>ys. zs = xs @ ys \<and> set ys \<subseteq> range YStr \<and>
           (\<forall>n. count_list zs (YStr n) \<le> max 1 (count_list xs (YStr n))))"

definition named :: "heap \<Rightarrow> heap \<Rightarrow> bool" where
  "named h h' \<longleftrightarrow>
     length h' = length h \<and>
     (\<forall>a kvs. a < length h \<and> h ! a = ODict kvs \<longrightarrow> h' ! a = ODict kvs) \<and>
     (\<forall>a xs. a < length h \<and> h ! a = OList xs \<longrightarrow> (\<exists>zs. h' ! a = OList zs \<and> extends xs zs))"

lemma extends_refl: "extends xs xs"
  by (simp add: extends_def)

lemma extends_trans:
  assumes "extends xs ys" and "extends ys zs"
  shows "extends xs zs"
proof -
  from assms(1) obtain us where us: "ys = xs @ us" "set us \<subseteq> range YStr"
    and c1: "\<And>n. count_list ys (YStr n) \<le> max 1 (count_list xs (YStr n))"
    unfolding extends_def by blast
  from assms(2) obtain vs where vs: "zs = ys @ vs" "set vs \<subseteq> range YStr"
    and c2: "\<And>n. count_list zs (YStr n) \<le> max 1 (count_list ys (YStr n))"
    unfolding extends_def by blast
  have "count_list zs (YStr n) \<le> max 1 (count_list xs (YStr n))" for n
    using c1 [of n] c2 [of n] by simp
  moreover have "zs = xs @ (us @ vs)" "set (us @ vs) \<subseteq> range YStr"
    using us vs by auto
  ultimately show ?thesis unfolding extends_def by blast
qed

lemma extends_add_names: "extends ps (add_names ps ns)"
proof -
  from add_names_app [of ps ns] obtain ys where "add_names ps ns = ps @ ys" "set ys \<subseteq> YStr ` set ns"
    by blast
  then have "add_names ps ns = ps @ ys \<and> set ys \<subseteq> range YStr" by auto
  with add_names_count [of ps ns] show ?thesis unfolding extends_def by blast
qed

lemma named_refl: "named h h"
  by (simp add: named_def extends_refl)

lemma named_trans:
  assumes "named h1 h2" and "named h2 h3"
  shows "named h1 h3"
proof -
  have len: "length h2 = length h1" "length h3 = length h1"
    using assms by (simp_all add: named_def)
  have d: "h3 ! a = ODict kvs" if "a < length h1" "h1 ! a = ODict kvs" for a kvs
  proof -
    from assms(1) that have "h2 ! a = ODict kvs" unfolding named_def by blast
    with assms(2) that(1) len show ?thesis unfolding named_def by metis
  qed
  have l: "\<exists>zs. h3 ! a = OList zs \<and> extends xs zs" if "a < length h1" "h1 ! a = OList xs" for a xs
  proof -
    from assms(1) that obtain ys where ys: "h2 ! a = OList ys" "extends xs ys"
      unfolding named_def by blast
    from assms(2) that(1) len ys(1) obtain zs where "h3 ! a = OList zs" "extends ys zs"
      unfolding named_def by metis
    with ys(2) show ?thesis using extends_trans by blast
  qed
  show ?thesis unfolding named_def using len d l by blast
qed

lemma named_upd:
  assumes "list_at h gp = Some (p, ps)"
  shows "named h (h[p := OList (add_names ps ns)])"
proof -
  from list_at_ref [OF assms] have p: "p < length h" "h ! p = OList ps" by auto
  have d: "h[p := OList (add_names ps ns)] ! a = ODict kvs"
    if "a < length h" "h ! a = ODict kvs" for a kvs
    using that p by (cases "a = p") simp_all
  have l: "\<exists>zs. h[p := OList (add_names ps ns)] ! a = OList zs \<and> extends xs zs"
    if "a < length h" "h ! a = OList xs" for a xs
    using that p extends_add_names [of ps ns] extends_refl [of xs] by (cases "a = p") simp_all
  show ?thesis unfolding named_def using d l by simp
qed

lemma merge_group_named: "named h (merge_group h g names spd man)"
  using merge_group_shape [of h g names spd man] named_upd named_refl by auto

lemma merge_groups_named: "named h (merge_groups h gl i names spd man)"
proof (induction h gl i names spd man rule: merge_groups.induct)
  case (1 h groups i names s m)
  show ?case
  proof (cases "seq_of h groups")
    case None
    then show ?thesis by (simp add: merge_groups.simps named_refl)
  next
    case (Some gs)
    show ?thesis
    proof (cases "i < length gs")
      case True
      with Some 1 have "named (merge_group h (gs ! i) names s m)
          (merge_groups (merge_group h (gs ! i) names s m) groups (Suc i) names s m)"
        by simp
      with merge_group_named [of h "gs ! i" names s m]
      have "named h (merge_groups (merge_group h (gs ! i) names s m) groups (Suc i) names s m)"
        by (rule named_trans)
      then show ?thesis using Some True by (subst merge_groups.simps) simp
    next
      case False
      with Some show ?thesis by (simp add: merge_groups.simps named_refl)
    qed
  qed
qed

lemma named_dict_at: "named h h' \<Longrightarrow> dict_at h' v = dict_at h v"
proof (cases v)
  case (YRef a)
  assume n: "named h h'"
  show ?thesis
  proof (cases "a < length h")
    case True
    then show ?thesis
    proof (cases "h ! a")
      case (OList xs)
      with n True obtain zs where "h' ! a = OList zs" unfolding named_def by blast
      with OList True n YRef show ?thesis by (simp add: dict_at_def obj_at_def named_def)
    next
      case (ODict kvs)
      with n True have "h' ! a = ODict kvs" unfolding named_def by blast
      with ODict True n YRef show ?thesis by (simp add: dict_at_def obj_at_def named_def)
    qed
  next
    case False
    with n YRef show ?thesis by (simp add: dict_at_def obj_at_def named_def)
  qed
qed (simp_all add: dict_at_def)

lemma named_list_at:
  assumes "named h h'" and "list_at h v = Some (a, xs)"
  shows "\<exists>zs. list_at h' v = Some (a, zs) \<and> extends xs zs"
proof -
  from list_at_ref [OF assms(2)] have v: "v = YRef a" "a < length h" "h ! a = OList xs" by auto
  with assms(1) obtain zs where "h' ! a = OList zs" "extends xs zs" unfolding named_def by blast
  with v assms(1) show ?thesis by (simp add: list_at_def obj_at_def named_def)
qed

lemma seq_of_list_at: "seq_of h a = Some xs \<longleftrightarrow> list_at h (YRef a) = Some (a, xs)"
  by (auto simp: seq_of_def list_at_def split: option.splits yobj.splits)

lemma named_seq_of:
  assumes "named h h'" and "seq_of h a = Some xs"
  shows "\<exists>zs. seq_of h' a = Some zs \<and> extends xs zs"
  using named_list_at [OF assms(1)] assms(2) by (simp add: seq_of_list_at)

lemma extends_nth: "extends xs zs \<Longrightarrow> j < length xs \<Longrightarrow> zs ! j = xs ! j"
  by (auto simp: extends_def nth_append)

lemma extends_set: "extends xs zs \<Longrightarrow> set xs \<subseteq> set zs"
  by (auto simp: extends_def)

lemma extends_length: "extends xs zs \<Longrightarrow> length xs \<le> length zs"
  by (auto simp: extends_def)

lemma extends_new: "extends xs zs \<Longrightarrow> length xs \<le> j \<Longrightarrow> j < length zs \<Longrightarrow> zs ! j \<in> range YStr"
  by (auto simp: extends_def nth_append)

text \<open>Only the \<open>proxies\<close> lists of the mappings visited are written.\<close>

lemma merge_groups_touched:
  "a < length h \<Longrightarrow> merge_groups h gl i names s m ! a \<noteq> h ! a \<Longrightarrow>
   \<exists>gs j gd gkvs. seq_of h gl = Some gs \<and> i \<le> j \<and> j < length gs \<and>
      dict_at h (gs ! j) = Some (gd, gkvs) \<and> map_of gkvs (YStr (S ''proxies'')) = Some (YRef a)"
proof (induction h gl i names s m rule: merge_groups.induct)
  case (1 h groups i names s m)
  show ?case
  proof (cases "seq_of h groups")
    case None
    with 1(3) show ?thesis by (simp add: merge_groups.simps)
  next
    case (Some gs)
    show ?thesis
    proof (cases "i < length gs")
      case False
      with Some 1(3) show ?thesis by (simp add: merge_groups.simps)
    next
      case True
      define h' where "h' = merge_group h (gs ! i) names s m"
      have nm: "named h h'" unfolding h'_def by (rule merge_group_named)
      have fin: "merge_groups h groups i names s m = merge_groups h' groups (Suc i) names s m"
        using Some True by (subst merge_groups.simps) (simp add: h'_def)
      show ?thesis
      proof (cases "h' ! a = h ! a")
        case False
        from merge_group_shape [of h "gs ! i" names s m] False
        obtain gd gkvs gp p ps where sh: "dict_at h (gs ! i) = Some (gd, gkvs)"
          "map_of gkvs (YStr (S ''proxies'')) = Some gp" "list_at h gp = Some (p, ps)"
          "h' = h[p := OList (add_names ps (names_to_add gkvs names s m))]"
          unfolding h'_def by auto
        from sh(4) False have "a = p" by (cases "a = p") simp_all
        with list_at_ref [OF sh(3)] have "gp = YRef a" by simp
        with sh(1,2) Some True show ?thesis by blast
      next
        case same: True
        with 1(3) fin have ne: "merge_groups h' groups (Suc i) names s m ! a \<noteq> h' ! a" by simp
        have "a < length h'" using nm 1(2) by (simp add: named_def)
        from 1(1) [OF Some True this [unfolded h'_def] ne [unfolded h'_def]]
        obtain gs' j gd gkvs where ih: "seq_of h' groups = Some gs'" "Suc i \<le> j" "j < length gs'"
          "dict_at h' (gs' ! j) = Some (gd, gkvs)" "map_of gkvs (YStr (S ''proxies'')) = Some (YRef a)"
          unfolding h'_def by blast
        from named_seq_of [OF nm Some] ih(1) have ex: "extends gs gs'" by simp
        have "j < length gs"
        proof (rule ccontr)
          assume "\<not> j < length gs"
          with extends_new [OF ex _ ih(3)] have "gs' ! j \<in> range YStr" by simp
          with ih(4) show False by (auto simp: dict_at_def)
        qed
        moreover from this ex have "gs' ! j = gs ! j" by (rule extends_nth [rotated])
        with ih(4) have "dict_at h (gs ! j) = Some (gd, gkvs)" using named_dict_at [OF nm] by simp
        moreover have "i \<le> j" using ih(2) by simp
        ultimately show ?thesis using ih(5) Some by blast
      qed
    qed
  qed
qed

text \<open>Every mapping of the list gets the names it is to get.\<close>

lemma merge_groups_adds:
  "seq_of h gl = Some gs \<Longrightarrow> i \<le> j \<Longrightarrow> j < length gs \<Longrightarrow>
   dict_at h (gs ! j) = Some (gd, gkvs) \<Longrightarrow> map_of gkvs (YStr (S ''proxies'')) = Some gp \<Longrightarrow>
   list_at h gp = Some (p, ps) \<Longrightarrow>
   \<exists>zs. list_at (merge_groups h gl i names s m) gp = Some (p, zs) \<and>
        YStr ` set (names_to_add gkvs names s m) \<subseteq> set zs"
proof (induction h gl i names s m arbitrary: gs ps rule: merge_groups.induct)
  case (1 h groups i names s m)
  define h' where "h' = merge_group h (gs ! i) names s m"
  have nm: "named h h'" unfolding h'_def by (rule merge_group_named)
  from 1(2-4) have il: "i < length gs" by simp
  have fin: "merge_groups h groups i names s m = merge_groups h' groups (Suc i) names s m"
    using 1(2) il by (subst merge_groups.simps) (simp add: h'_def)
  from named_seq_of [OF nm 1(2)] obtain gs' where gs': "seq_of h' groups = Some gs'" "extends gs gs'"
    by blast
  from named_list_at [OF nm 1(7)] obtain ps' where ps': "list_at h' gp = Some (p, ps')" "extends ps ps'"
    by blast
  show ?case
  proof (cases "j = i")
    case True
    with 1(5,6,7) have "h' = h[p := OList (add_names ps (names_to_add gkvs names s m))]"
      unfolding h'_def by (simp add: merge_group_def)
    with list_at_ref [OF 1(7)] have "list_at h' gp = Some (p, add_names ps (names_to_add gkvs names s m))"
      by (simp add: list_at_upd_list)
    from named_list_at [OF merge_groups_named this, of groups "Suc i" names s m]
    obtain zs where "list_at (merge_groups h' groups (Suc i) names s m) gp = Some (p, zs)"
      "extends (add_names ps (names_to_add gkvs names s m)) zs" by blast
    with add_names_has [of "names_to_add gkvs names s m" ps] extends_set fin show ?thesis
      by fastforce
  next
    case False
    with 1(3) have ij: "Suc i \<le> j" by simp
    have j': "j < length gs'" using 1(4) extends_length [OF gs'(2)] by simp
    have e: "gs' ! j = gs ! j" using extends_nth [OF gs'(2) 1(4)] .
    have dj: "dict_at h' (gs' ! j) = Some (gd, gkvs)" using 1(5) e named_dict_at [OF nm] by simp
    from 1(1) [OF 1(2) il gs'(1) [unfolded h'_def] ij j' dj [unfolded h'_def] 1(6) ps'(1) [unfolded h'_def]]
    show ?thesis using fin by (simp add: h'_def)
  qed
qed

section \<open>What a call of \<open>update_yaml\<close> does to the store\<close>

text \<open>
  \<open>grown xs zs\<close>: the list \<open>zs\<close> is \<open>xs\<close> with elements appended that raise the number
  of occurrences of no name above one. \<open>keeps h h'\<close>: every list of \<open>h\<close> has grown in
  \<open>h'\<close>.
\<close>

definition grown :: "yval list \<Rightarrow> yval list \<Rightarrow> bool" where
  "grown xs zs \<longleftrightarrow>
     (\<exists>ys. zs = xs @ ys) \<and> (\<forall>n. count_list zs (YStr n) \<le> max 1 (count_list xs (YStr n)))"

definition keeps :: "heap \<Rightarrow> heap \<Rightarrow> bool" where
  "keeps h h' \<longleftrightarrow>
     length h \<le> length h' \<and>
     (\<forall>a xs. a < length h \<and> h ! a = OList xs \<longrightarrow> (\<exists>zs. h' ! a = OList zs \<and> grown xs zs))"

lemma grown_refl: "grown xs xs"
  by (simp add: grown_def)

lemma grown_trans:
  assumes "grown xs ys" and "grown ys zs"
  shows "grown xs zs"
proof -
  have "count_list zs (YStr n) \<le> max 1 (count_list xs (YStr n))" for n
  proof -
    from assms have "count_list zs (YStr n) \<le> max 1 (count_list ys (YStr n))"
      "count_list ys (YStr n) \<le> max 1 (count_list xs (YStr n))"
      unfolding grown_def by blast+
    then show ?thesis by simp
  qed
  moreover from assms have "\<exists>us. zs = xs @ us" unfolding grown_def by auto
  ultimately show ?thesis unfolding grown_def by blast
qed

lemma extends_grown: "extends xs zs \<Longrightarrow> grown xs zs"
  unfolding extends_def grown_def by blast

lemma grown_refs: "grown xs (xs @ map (\<lambda>p. YRef (f p)) ps)"
proof -
  have "count_list (map (\<lambda>p. YRef (f p)) ps) (YStr n) = 0" for n
    by (induction ps) simp_all
  then show ?thesis by (simp add: grown_def)
qed

lemma keeps_refl: "keeps h h"
  by (simp add: keeps_def grown_refl)

lemma keeps_trans:
  assumes "keeps h1 h2" and "keeps h2 h3"
  shows "keeps h1 h3"
proof -
  have len: "length h1 \<le> length h2" "length h2 \<le> length h3"
    using assms by (simp_all add: keeps_def)
  have "\<exists>zs. h3 ! a = OList zs \<and> grown xs zs" if "a < length h1" "h1 ! a = OList xs" for a xs
  proof -
    from assms(1) that obtain ys where ys: "h2 ! a = OList ys" "grown xs ys"
      unfolding keeps_def by blast
    from that(1) len have "a < length h2" by simp
    with assms(2) ys(1) obtain zs where "h3 ! a = OList zs" "grown ys zs"
      unfolding keeps_def by blast
    with ys(2) show ?thesis using grown_trans by blast
  qed
  then show ?thesis unfolding keeps_def using len by auto
qed

lemma named_keeps:
  assumes "named h h'"
  shows "keeps h h'"
proof -
  have "\<exists>zs. h' ! a = OList zs \<and> grown xs zs" if "a < length h" "h ! a = OList xs" for a xs
  proof -
    from assms that obtain zs where "h' ! a = OList zs" "extends xs zs" unfolding named_def by blast
    then show ?thesis using extends_grown by blast
  qed
  moreover have "length h \<le> length h'" using assms by (simp add: named_def)
  ultimately show ?thesis unfolding keeps_def by blast
qed

lemma keeps_app: "keeps h (h @ [ob])"
  by (simp add: keeps_def nth_append grown_refl)

lemma keeps_upd_dict:
  assumes "h ! d = ODict kvs"
  shows "keeps h (h[d := ODict kvs'])"
proof -
  have "\<exists>zs. h[d := ODict kvs'] ! a = OList zs \<and> grown xs zs"
    if "a < length h" "h ! a = OList xs" for a xs
    using that assms grown_refl [of xs] by (cases "a = d") simp_all
  then show ?thesis unfolding keeps_def by simp
qed

lemma keeps_upd_refs:
  assumes "h ! l = OList xs"
  shows "keeps h (h[l := OList (xs @ map (\<lambda>p. YRef (f p)) ps)])"
proof -
  have "\<exists>zs. h[l := OList (xs @ map (\<lambda>p. YRef (f p)) ps)] ! a = OList zs \<and> grown ys zs"
    if "a < length h" "h ! a = OList ys" for a ys
    using that assms grown_refl [of ys] grown_refs [of xs f ps] by (cases "a = l") simp_all
  then show ?thesis unfolding keeps_def by simp
qed

lemma keeps_list_at:
  assumes "keeps h h'" and "list_at h v = Some (a, xs)"
  shows "\<exists>zs. list_at h' v = Some (a, zs) \<and> grown xs zs"
proof -
  from list_at_ref [OF assms(2)] have v: "v = YRef a" "a < length h" "h ! a = OList xs" by auto
  with assms(1) obtain zs where "h' ! a = OList zs" "grown xs zs" unfolding keeps_def by blast
  moreover from assms(1) v have "a < length h'" by (simp add: keeps_def)
  ultimately show ?thesis using v by (simp add: list_at_def obj_at_def)
qed

lemma ensure_proxies_cases:
  assumes "ensure_proxies h d kvs = (h2, ps)"
  shows "(h2 = h \<and> map_of kvs (YStr (S ''proxies'')) = Some ps \<and> ps \<noteq> YNull) \<or>
         (h2 = h[d := ODict (dict_set kvs (YStr (S ''proxies'')) (YRef (length h)))] @ [OList []] \<and>
          ps = YRef (length h) \<and>
          (map_of kvs (YStr (S ''proxies'')) = None \<or> map_of kvs (YStr (S ''proxies'')) = Some YNull))"
  using assms by (auto simp: ensure_proxies_def Let_def split: option.splits if_splits)

lemma or_empty_cases:
  assumes "or_empty h0 loaded = (h1, data)"
  shows "(h1 = h0 \<and> data = loaded \<and> \<not> falsy h0 loaded) \<or>
         (h1 = h0 @ [ODict []] \<and> data = YRef (length h0) \<and> falsy h0 loaded)"
  using assms by (auto simp: or_empty_def split: if_splits)

text \<open>The steps of a call of update_yaml that returns.\<close>

lemma update_yaml_steps:
  assumes "update_yaml h0 loaded cp proxies spd man op = Inr (path, h', data)"
  shows "\<exists>h1 d kvs h2 ps l xs.
     or_empty h0 loaded = (h1, data) \<and> dict_at h1 data = Some (d, kvs) \<and>
     ensure_proxies h1 d kvs = (h2, ps) \<and> list_at h2 ps = Some (l, xs) \<and>
     add_to_groups (h2[l := OList (xs @ map (\<lambda>p. YRef (snd p)) proxies)]) data
       (map fst proxies) spd man = Inr h'"
proof -
  obtain h1 data' where oe: "or_empty h0 loaded = (h1, data')" by (cases "or_empty h0 loaded")
  show ?thesis
  proof (cases "dict_at h1 data'")
    case None
    with assms oe show ?thesis by (simp add: update_yaml_def)
  next
    case (Some dk)
    obtain d kvs where dk: "dk = (d, kvs)" by (cases dk)
    obtain h2 ps where ep: "ensure_proxies h1 d kvs = (h2, ps)" by (cases "ensure_proxies h1 d kvs")
    show ?thesis
    proof (cases "list_at h2 ps")
      case None
      with assms oe Some dk ep show ?thesis by (simp add: update_yaml_def)
    next
      case l: (Some lx)
      obtain l xs where lx: "lx = (l, xs)" by (cases lx)
      define h3 where "h3 = h2[l := OList (xs @ map (\<lambda>p. YRef (snd p)) proxies)]"
      from assms oe Some dk ep l lx
      have r: "(case add_to_groups h3 data' (map fst proxies) spd man of
              Inl e \<Rightarrow> Inl e | Inr h4 \<Rightarrow> Inr (resolve_output cp op, h4, data')) = Inr (path, h', data)"
        by (simp add: update_yaml_def h3_def)
      then have dd: "data' = data" and ag: "add_to_groups h3 data' (map fst proxies) spd man = Inr h'"
        by (auto split: sum.splits)
      with oe Some dk ep l lx show ?thesis unfolding h3_def by blast
    qed
  qed
qed

lemma add_to_groups_cases:
  assumes "add_to_groups h data names spd man = Inr h'"
  shows "h' = h \<or>
    (spd \<or> man) \<and>
    (\<exists>d kvs groups gl gs. dict_at h data = Some (d, kvs) \<and>
       map_of kvs (YStr (S ''proxy-groups'')) = Some groups \<and>
       list_at h groups = Some (gl, gs) \<and> h' = merge_groups h gl 0 names spd man)"
proof (cases "spd \<or> man")
  case False
  with assms show ?thesis by (simp add: add_to_groups_def)
next
  case True
  show ?thesis
  proof (cases "dict_at h data")
    case None
    with assms True show ?thesis by (simp add: add_to_groups_def)
  next
    case (Some dk)
    obtain d kvs where dk: "dk = (d, kvs)" by (cases dk)
    show ?thesis
    proof (cases "map_of kvs (YStr (S ''proxy-groups''))")
      case None
      with assms True Some dk show ?thesis by (simp add: add_to_groups_def)
    next
      case g: (Some groups)
      show ?thesis
      proof (cases "list_at h groups")
        case None
        with assms True Some dk g show ?thesis by (simp add: add_to_groups_def)
      next
        case gl: (Some glx)
        obtain gl gs where "glx = (gl, gs)" by (cases glx)
        with assms True Some dk g gl show ?thesis by (simp add: add_to_groups_def)
      qed
    qed
  qed
qed

lemma add_to_groups_named:
  assumes "add_to_groups h data names spd man = Inr h'"
  shows "named h h'"
  using add_to_groups_cases [OF assms] named_refl merge_groups_named by auto

text \<open>
  \<open>merged h d h'\<close>: what a call of \<open>update_yaml\<close> on a document with the root mapping
  at \<open>d\<close> makes of the store, as far as mappings and the growth of lists go.
\<close>

definition dicts_kept :: "heap \<Rightarrow> nat \<Rightarrow> heap \<Rightarrow> bool" where
  "dicts_kept h d h' \<longleftrightarrow>
     (\<forall>x kv. x < length h \<and> x \<noteq> d \<and> h ! x = ODict kv \<longrightarrow> h' ! x = ODict kv)"

definition root_kept :: "heap \<Rightarrow> nat \<Rightarrow> heap \<Rightarrow> bool" where
  "root_kept h d h' \<longleftrightarrow>
     (\<forall>kvs. d < length h \<and> h ! d = ODict kvs \<longrightarrow>
        (\<exists>kvs'. h' ! d = ODict kvs' \<and>
           (\<forall>k. k \<noteq> YStr (S ''proxies'') \<longrightarrow> map_of kvs' k = map_of kvs k) \<and>
           (\<forall>w a xs. map_of kvs (YStr (S ''proxies'')) = Some w \<and> list_at h w = Some (a, xs)
              \<longrightarrow> kvs' = kvs)))"

definition merged :: "heap \<Rightarrow> nat \<Rightarrow> heap \<Rightarrow> bool" where
  "merged h d h' \<longleftrightarrow> keeps h h' \<and> dicts_kept h d h' \<and> root_kept h d h'"

lemma dicts_keptI:
  "(\<And>x kv. x < length h \<Longrightarrow> x \<noteq> d \<Longrightarrow> h ! x = ODict kv \<Longrightarrow> h' ! x = ODict kv)
   \<Longrightarrow> dicts_kept h d h'"
  unfolding dicts_kept_def by blast

lemma dicts_keptD:
  "dicts_kept h d h' \<Longrightarrow> x < length h \<Longrightarrow> x \<noteq> d \<Longrightarrow> h ! x = ODict kv \<Longrightarrow> h' ! x = ODict kv"
  unfolding dicts_kept_def by blast

lemma root_keptI:
  "(\<And>kvs. d < length h \<Longrightarrow> h ! d = ODict kvs \<Longrightarrow>
      \<exists>kvs'. h' ! d = ODict kvs' \<and>
           (\<forall>k. k \<noteq> YStr (S ''proxies'') \<longrightarrow> map_of kvs' k = map_of kvs k) \<and>
           (\<forall>w a xs. map_of kvs (YStr (S ''proxies'')) = Some w \<and> list_at h w = Some (a, xs)
              \<longrightarrow> kvs' = kvs))
   \<Longrightarrow> root_kept h d h'"
  unfolding root_kept_def by blast

lemma root_keptD:
  "root_kept h d h' \<Longrightarrow> d < length h \<Longrightarrow> h ! d = ODict kvs \<Longrightarrow>
      \<exists>kvs'. h' ! d = ODict kvs' \<and>
           (\<forall>k. k \<noteq> YStr (S ''proxies'') \<longrightarrow> map_of kvs' k = map_of kvs k) \<and>
           (\<forall>w a xs. map_of kvs (YStr (S ''proxies'')) = Some w \<and> list_at h w = Some (a, xs)
              \<longrightarrow> kvs' = kvs)"
  unfolding root_kept_def by blast

lemma merged_refl: "merged h d h"
  by (simp add: merged_def keeps_refl dicts_kept_def root_kept_def)

lemma merged_named:
  assumes "merged h d h2" and "named h2 h'"
  shows "merged h d h'"
proof -
  from assms(1) have k1: "keeps h h2" by (simp add: merged_def)
  have k: "keeps h h'" using keeps_trans [OF k1 named_keeps [OF assms(2)]] .
  have len: "length h \<le> length h2" using k1 by (simp add: keeps_def)
  have same: "h' ! x = ODict kv" if "x < length h2" "h2 ! x = ODict kv" for x kv
    using assms(2) that unfolding named_def by blast
  have a: "h' ! x = ODict kv" if "x < length h" "x \<noteq> d" "h ! x = ODict kv" for x kv
  proof -
    from assms(1) have "dicts_kept h d h2" by (simp add: merged_def)
    from dicts_keptD [OF this that] have "h2 ! x = ODict kv" .
    moreover from that(1) len have "x < length h2" by simp
    ultimately show ?thesis by (rule same [rotated])
  qed
  have b: "\<exists>kvs'. h' ! d = ODict kvs' \<and>
           (\<forall>k. k \<noteq> YStr (S ''proxies'') \<longrightarrow> map_of kvs' k = map_of kvs k) \<and>
           (\<forall>w a xs. map_of kvs (YStr (S ''proxies'')) = Some w \<and> list_at h w = Some (a, xs)
              \<longrightarrow> kvs' = kvs)"
    if "d < length h" "h ! d = ODict kvs" for kvs
  proof -
    from assms(1) have "root_kept h d h2" by (simp add: merged_def)
    from root_keptD [OF this that] obtain kvs' where k': "h2 ! d = ODict kvs'"
      "\<forall>k. k \<noteq> YStr (S ''proxies'') \<longrightarrow> map_of kvs' k = map_of kvs k"
      "\<forall>w a xs. map_of kvs (YStr (S ''proxies'')) = Some w \<and> list_at h w = Some (a, xs)
              \<longrightarrow> kvs' = kvs"
      by blast
    from that(1) len have "d < length h2" by simp
    from same [OF this k'(1)] have "h' ! d = ODict kvs'" .
    with k'(2,3) show ?thesis by (intro exI [of _ kvs'] conjI)
  qed
  have "dicts_kept h d h'" using a by (rule dicts_keptI)
  moreover have "root_kept h d h'" using b by (rule root_keptI)
  ultimately show ?thesis unfolding merged_def using k by simp
qed

lemma merged_upd_refs:
  assumes "list_at h v = Some (l, xs)"
  shows "merged h d (h[l := OList (xs @ map (\<lambda>p. YRef (f p)) ps)])"
proof -
  from list_at_ref [OF assms] have l: "l < length h" "h ! l = OList xs" by auto
  have "h[l := OList (xs @ map (\<lambda>p. YRef (f p)) ps)] ! x = ODict kv"
    if "x < length h" "h ! x = ODict kv" for x kv
    using that l by (cases "x = l") simp_all
  moreover have "\<exists>kvs'. h[l := OList (xs @ map (\<lambda>p. YRef (f p)) ps)] ! d = ODict kvs' \<and>
           (\<forall>k. k \<noteq> YStr (S ''proxies'') \<longrightarrow> map_of kvs' k = map_of kvs k) \<and>
           (\<forall>w a xs. map_of kvs (YStr (S ''proxies'')) = Some w \<and> list_at h w = Some (a, xs)
              \<longrightarrow> kvs' = kvs)"
    if "d < length h" "h ! d = ODict kvs" for kvs
    using that l by (cases "d = l") simp_all
  ultimately show ?thesis
    unfolding merged_def using keeps_upd_refs [OF l(2), of f ps]
    by (simp add: dicts_kept_def root_kept_def)
qed

lemma merged_ensure:
  assumes "dict_at h (YRef d) = Some (d, kvs)" and "ensure_proxies h d kvs = (h2, ps)"
  shows "merged h d h2"
proof -
  from dict_at_ref [OF assms(1)] have d: "d < length h" "h ! d = ODict kvs" by auto
  from ensure_proxies_cases [OF assms(2)] show ?thesis
  proof
    assume "h2 = h \<and> map_of kvs (YStr (S ''proxies'')) = Some ps \<and> ps \<noteq> YNull"
    then show ?thesis by (simp add: merged_refl)
  next
    assume new: "h2 = h[d := ODict (dict_set kvs (YStr (S ''proxies'')) (YRef (length h)))] @ [OList []] \<and>
          ps = YRef (length h) \<and>
          (map_of kvs (YStr (S ''proxies'')) = None \<or> map_of kvs (YStr (S ''proxies'')) = Some YNull)"
    have k: "keeps h h2"
      using new keeps_trans [OF keeps_upd_dict [OF d(2)] keeps_app] by simp
    have a: "h2 ! x = ODict kv" if "x < length h" "x \<noteq> d" "h ! x = ODict kv" for x kv
      using that new by (simp add: nth_append)
    have b: "h2 ! d = ODict (dict_set kvs (YStr (S ''proxies'')) (YRef (length h)))"
      using new d by (simp add: nth_append)
    have c: "\<not> (map_of kvs (YStr (S ''proxies'')) = Some w \<and> list_at h w = Some (a, xs))" for w a xs
      using new by (auto simp: list_at_def)
    have e: "\<exists>kvs'. h2 ! d = ODict kvs' \<and>
           (\<forall>k. k \<noteq> YStr (S ''proxies'') \<longrightarrow> map_of kvs' k = map_of kvs0 k) \<and>
           (\<forall>w a xs. map_of kvs0 (YStr (S ''proxies'')) = Some w \<and> list_at h w = Some (a, xs)
              \<longrightarrow> kvs' = kvs0)"
      if "h ! d = ODict kvs0" for kvs0
    proof -
      from that d have "kvs0 = kvs" by simp
      with b c show ?thesis by (auto simp: map_of_dict_set)
    qed
    have "dicts_kept h d h2" using a by (rule dicts_keptI)
    moreover have "root_kept h d h2" using e by (rule root_keptI)
    ultimately show ?thesis unfolding merged_def using k by simp
  qed
qed

lemma merged_trans_same:
  assumes "merged h1 d h2" and "merged h2 d h3"
  shows "merged h1 d h3"
proof -
  from assms have k12: "keeps h1 h2" "keeps h2 h3" by (simp_all add: merged_def)
  have k: "keeps h1 h3" using keeps_trans [OF k12] .
  have len: "length h1 \<le> length h2" using assms(1) by (simp add: merged_def keeps_def)
  have a: "h3 ! x = ODict kv" if "x < length h1" "x \<noteq> d" "h1 ! x = ODict kv" for x kv
  proof -
    from assms have dk: "dicts_kept h1 d h2" "dicts_kept h2 d h3" by (simp_all add: merged_def)
    from dicts_keptD [OF dk(1) that] have "h2 ! x = ODict kv" .
    moreover from that(1) len have "x < length h2" by simp
    ultimately show ?thesis using dicts_keptD [OF dk(2)] that(2) by blast
  qed
  have b: "\<exists>kvs'. h3 ! d = ODict kvs' \<and>
           (\<forall>k. k \<noteq> YStr (S ''proxies'') \<longrightarrow> map_of kvs' k = map_of kvs k) \<and>
           (\<forall>w a xs. map_of kvs (YStr (S ''proxies'')) = Some w \<and> list_at h1 w = Some (a, xs)
              \<longrightarrow> kvs' = kvs)"
    if "d < length h1" "h1 ! d = ODict kvs" for kvs
  proof -
    from assms(1) have "root_kept h1 d h2" by (simp add: merged_def)
    from root_keptD [OF this that] obtain kvs2 where k2: "h2 ! d = ODict kvs2"
      "\<forall>k. k \<noteq> YStr (S ''proxies'') \<longrightarrow> map_of kvs2 k = map_of kvs k"
      "\<forall>w a xs. map_of kvs (YStr (S ''proxies'')) = Some w \<and> list_at h1 w = Some (a, xs)
              \<longrightarrow> kvs2 = kvs"
      by blast
    from that(1) len have d2: "d < length h2" by simp
    from assms(2) have "root_kept h2 d h3" by (simp add: merged_def)
    from root_keptD [OF this d2 k2(1)] obtain kvs3 where k3: "h3 ! d = ODict kvs3"
      "\<forall>k. k \<noteq> YStr (S ''proxies'') \<longrightarrow> map_of kvs3 k = map_of kvs2 k"
      "\<forall>w a xs. map_of kvs2 (YStr (S ''proxies'')) = Some w \<and> list_at h2 w = Some (a, xs)
              \<longrightarrow> kvs3 = kvs2"
      by blast
    have "kvs3 = kvs" if w: "map_of kvs (YStr (S ''proxies'')) = Some w" "list_at h1 w = Some (a, xs)" for w a xs
    proof -
      from k2(3) w have e: "kvs2 = kvs" by blast
      from assms(1) have "keeps h1 h2" by (simp add: merged_def)
      from keeps_list_at [OF this w(2)] obtain zs where "list_at h2 w = Some (a, zs)" by blast
      with k3(3) w(1) e show ?thesis by blast
    qed
    moreover have "\<forall>k. k \<noteq> YStr (S ''proxies'') \<longrightarrow> map_of kvs3 k = map_of kvs k"
      using k3(2) k2(2) by simp
    ultimately show ?thesis using k3(1) by (intro exI [of _ kvs3] conjI) blast+
  qed
  have "dicts_kept h1 d h3" using a by (rule dicts_keptI)
  moreover have "root_kept h1 d h3" using b by (rule root_keptI)
  ultimately show ?thesis unfolding merged_def using k by simp
qed

lemma update_yaml_merged:
  assumes "update_yaml h0 loaded cp proxies spd man op = Inr (path, h', data)"
    and "dict_at h0 loaded = Some (d, kvs)" and "kvs \<noteq> []"
  shows "data = loaded" and "merged h0 d h'"
proof -
  from dict_at_ref [OF assms(2)] have ld: "loaded = YRef d" "d < length h0" "h0 ! d = ODict kvs" by auto
  then have nf: "or_empty h0 loaded = (h0, loaded)"
    using assms(3) by (simp add: or_empty_def falsy_def obj_at_def)
  from update_yaml_steps [OF assms(1)] obtain h1 d' kvs' h2 ps l xs where
    oe: "or_empty h0 loaded = (h1, data)" and da: "dict_at h1 data = Some (d', kvs')" and
    ep': "ensure_proxies h1 d' kvs' = (h2, ps)" and la: "list_at h2 ps = Some (l, xs)" and
    ag: "add_to_groups (h2[l := OList (xs @ map (\<lambda>p. YRef (snd p)) proxies)]) data
       (map fst proxies) spd man = Inr h'"
    by blast
  from oe nf have e1: "h1 = h0" and dd: "data = loaded" by simp_all
  from da e1 dd assms(2) have e2: "d' = d" "kvs' = kvs" by simp_all
  from ep' e1 e2 have ep: "ensure_proxies h0 d kvs = (h2, ps)" by simp
  show "data = loaded" by (rule dd)
  have m1: "merged h0 d h2" using merged_ensure [OF assms(2) [unfolded ld(1)] ep] .
  have m2: "merged h2 d (h2[l := OList (xs @ map (\<lambda>p. YRef (snd p)) proxies)])"
    using merged_upd_refs [OF la] .
  show "merged h0 d h'"
    using merged_named [OF merged_trans_same [OF m1 m2] add_to_groups_named [OF ag]] .
qed

lemma update_yaml_loop:
  assumes "update_yaml h0 loaded cp proxies spd man op = Inr (path, h', data)"
    and "dict_at h0 loaded = Some (d, kvs)" and "kvs \<noteq> []"
  shows "\<exists>h3. merged h0 d h3 \<and> add_to_groups h3 loaded (map fst proxies) spd man = Inr h'"
proof -
  from dict_at_ref [OF assms(2)] have ld: "loaded = YRef d" "d < length h0" "h0 ! d = ODict kvs" by auto
  then have nf: "or_empty h0 loaded = (h0, loaded)"
    using assms(3) by (simp add: or_empty_def falsy_def obj_at_def)
  from update_yaml_steps [OF assms(1)] obtain h1 d' kvs' h2 ps l xs where
    oe: "or_empty h0 loaded = (h1, data)" and da: "dict_at h1 data = Some (d', kvs')" and
    ep': "ensure_proxies h1 d' kvs' = (h2, ps)" and la: "list_at h2 ps = Some (l, xs)" and
    ag: "add_to_groups (h2[l := OList (xs @ map (\<lambda>p. YRef (snd p)) proxies)]) data
       (map fst proxies) spd man = Inr h'"
    by blast
  from oe nf have e1: "h1 = h0" and dd: "data = loaded" by simp_all
  from da e1 dd assms(2) have e2: "d' = d" "kvs' = kvs" by simp_all
  from ep' e1 e2 have ep: "ensure_proxies h0 d kvs = (h2, ps)" by simp
  have m1: "merged h0 d h2" using merged_ensure [OF assms(2) [unfolded ld(1)] ep] .
  have m2: "merged h2 d (h2[l := OList (xs @ map (\<lambda>p. YRef (snd p)) proxies)])"
    using merged_upd_refs [OF la] .
  from merged_trans_same [OF m1 m2] ag dd show ?thesis by blast
qed

lemma group_of_merged:
  assumes "merged h d h'" and "dict_at h doc = Some (d, kvs)" and "group_of h doc gkvs v"
  shows "group_of h' doc gkvs v"
proof -
  from assms(3,2) obtain groups gl gs g gd a xs where
    gr: "map_of kvs (YStr (S ''proxy-groups'')) = Some groups"
    and gl: "list_at h groups = Some (gl, gs)" and g: "g \<in> set gs"
    and gd: "dict_at h g = Some (gd, gkvs)"
    and v: "map_of gkvs (YStr (S ''proxies'')) = Some v"
    and l: "list_at h v = Some (a, xs)"
    unfolding group_of_def by auto
  from assms(1) have k: "keeps h h'" and dk: "dicts_kept h d h'" and rk: "root_kept h d h'"
    by (simp_all add: merged_def)
  have len: "length h \<le> length h'" using k by (simp add: keeps_def)
  from dict_at_ref [OF assms(2)] have d: "doc = YRef d" "d < length h" "h ! d = ODict kvs" by auto
  from root_keptD [OF rk d(2,3)] obtain kvs' where k': "h' ! d = ODict kvs'"
    "\<forall>k. k \<noteq> YStr (S ''proxies'') \<longrightarrow> map_of kvs' k = map_of kvs k"
    "\<forall>w a xs. map_of kvs (YStr (S ''proxies'')) = Some w \<and> list_at h w = Some (a, xs) \<longrightarrow> kvs' = kvs"
    by blast
  have 1: "dict_at h' doc = Some (d, kvs')"
    using d len k'(1) by (simp add: dict_at_def obj_at_def)
  have 2: "map_of kvs' (YStr (S ''proxy-groups'')) = Some groups"
    using k'(2) gr by (simp add: S_def)
  from keeps_list_at [OF k gl] obtain gs' where 3: "list_at h' groups = Some (gl, gs')" "grown gs gs'"
    by blast
  have 4: "g \<in> set gs'" using 3(2) g by (auto simp: grown_def)
  from dict_at_ref [OF gd] have gg: "g = YRef gd" "gd < length h" "h ! gd = ODict gkvs" by auto
  have "h' ! gd = ODict gkvs"
  proof (cases "gd = d")
    case True
    with gg d have "gkvs = kvs" by simp
    with v l k'(3) have "kvs' = kvs" by blast
    with True k'(1) \<open>gkvs = kvs\<close> show ?thesis by simp
  next
    case False
    from dicts_keptD [OF dk gg(2) False gg(3)] show ?thesis .
  qed
  then have 5: "dict_at h' g = Some (gd, gkvs)"
    using gg len by (simp add: dict_at_def obj_at_def)
  from keeps_list_at [OF k l] obtain zs where 6: "list_at h' v = Some (a, zs)" by blast
  show ?thesis unfolding group_of_def using 1 2 3(1) 4 5 v 6 by blast
qed

lemma group_of_root:
  assumes "group_of h doc gkvs v"
  obtains d kvs where "dict_at h doc = Some (d, kvs)" "kvs \<noteq> []"
proof -
  from assms obtain d kvs groups where "dict_at h doc = Some (d, kvs)"
    "map_of kvs (YStr (S ''proxy-groups'')) = Some groups"
    unfolding group_of_def by blast
  moreover from this(2) have "kvs \<noteq> []" by auto
  ultimately show ?thesis using that by blast
qed

lemma update_yaml_group_of:
  assumes "update_yaml h doc cp proxies spd man op = Inr (path, h', doc')"
    and "group_of h doc gkvs v"
  shows "doc' = doc" and "group_of h' doc gkvs v"
proof -
  from group_of_root [OF assms(2)] obtain d kvs where r: "dict_at h doc = Some (d, kvs)" "kvs \<noteq> []"
    by blast
  from update_yaml_merged [OF assms(1) r] show "doc' = doc" by simp
  from update_yaml_merged(2) [OF assms(1) r] group_of_merged [OF _ r(1) assms(2)]
  show "group_of h' doc gkvs v" by blast
qed

lemma update_yaml_adds:
  assumes "update_yaml h doc cp proxies spd man op = Inr (path, h', doc')"
    and "group_of h doc gkvs v"
  shows "\<exists>a zs. list_at h' v = Some (a, zs) \<and>
           YStr ` set (names_to_add gkvs (map fst proxies) spd man) \<subseteq> set zs"
proof -
  from group_of_root [OF assms(2)] obtain d kvs where r: "dict_at h doc = Some (d, kvs)" "kvs \<noteq> []"
    by blast
  from update_yaml_loop [OF assms(1) r] obtain h3 where
    m: "merged h d h3" and ag: "add_to_groups h3 doc (map fst proxies) spd man = Inr h'"
    by blast
  from group_of_merged [OF m r(1) assms(2)] obtain d3 kvs3 groups gl gs g gd a xs where
    g3: "dict_at h3 doc = Some (d3, kvs3)"
        "map_of kvs3 (YStr (S ''proxy-groups'')) = Some groups"
        "list_at h3 groups = Some (gl, gs)" "g \<in> set gs"
        "dict_at h3 g = Some (gd, gkvs)"
        "map_of gkvs (YStr (S ''proxies'')) = Some v"
        "list_at h3 v = Some (a, xs)"
    unfolding group_of_def by blast
  show ?thesis
  proof (cases "spd \<or> man")
    case False
    then have "names_to_add gkvs (map fst proxies) spd man = []" by (simp add: names_to_add_def)
    moreover from named_list_at [OF add_to_groups_named [OF ag] g3(7)]
    obtain zs where "list_at h' v = Some (a, zs)" by blast
    ultimately show ?thesis by simp
  next
    case True
    with ag g3(1,2,3) have h': "h' = merge_groups h3 gl 0 (map fst proxies) spd man"
      by (simp add: add_to_groups_def)
    from g3(4) obtain j where j: "j < length gs" "gs ! j = g" by (auto simp: in_set_conv_nth)
    from g3(3) have sq: "seq_of h3 gl = Some gs"
      using list_at_ref [OF g3(3)] by (simp add: seq_of_list_at)
    from merge_groups_adds [OF sq _ j(1) g3(5) [folded j(2)] g3(6,7), of 0 "map fst proxies" spd man]
    show ?thesis using h' by auto
  qed
qed

lemma update_yaml_keeps:
  assumes "update_yaml h0 loaded cp proxies spd man op = Inr (path, h', data)"
  shows "keeps h0 h'"
proof -
  from update_yaml_steps [OF assms] obtain h1 d kvs h2 ps l xs where
    oe: "or_empty h0 loaded = (h1, data)" and da: "dict_at h1 data = Some (d, kvs)" and
    ep: "ensure_proxies h1 d kvs = (h2, ps)" and la: "list_at h2 ps = Some (l, xs)" and
    ag: "add_to_groups (h2[l := OList (xs @ map (\<lambda>p. YRef (snd p)) proxies)]) data
       (map fst proxies) spd man = Inr h'"
    by blast
  define h3 where "h3 = h2[l := OList (xs @ map (\<lambda>p. YRef (snd p)) proxies)]"
  have k1: "keeps h0 h1" using or_empty_cases [OF oe] keeps_refl keeps_app by auto
  from dict_at_ref [OF da] have d: "d < length h1" "h1 ! d = ODict kvs" by auto
  have k2: "keeps h1 h2"
    using ensure_proxies_cases [OF ep] keeps_refl
      keeps_trans [OF keeps_upd_dict [OF d(2)] keeps_app] by auto
  from list_at_ref [OF la] have "h2 ! l = OList xs" by simp
  then have k3: "keeps h2 h3" unfolding h3_def by (rule keeps_upd_refs)
  have k4: "keeps h3 h'" using named_keeps [OF add_to_groups_named [OF ag]] unfolding h3_def .
  from keeps_trans [OF keeps_trans [OF keeps_trans [OF k1 k2] k3] k4] show ?thesis .
qed

lemma merge_calls_keeps:
  "merge_calls h doc calls = Inr (h', doc') \<Longrightarrow> keeps h h'"
proof (induction calls arbitrary: h doc)
  case Nil
  then show ?case by (simp add: keeps_refl)
next
  case (Cons c calls)
  obtain cp proxies spd man op where c: "c = (cp, proxies, spd, man, op)" by (cases c)
  from Cons.prems c obtain path h1 doc1 where
    u: "update_yaml h doc cp proxies spd man op = Inr (path, h1, doc1)"
    and r: "merge_calls h1 doc1 calls = Inr (h', doc')"
    by (auto split: sum.splits)
  from keeps_trans [OF update_yaml_keeps [OF u] Cons.IH [OF r]] show ?case .
qed

lemma merge_calls_adds:
  "merge_calls h doc calls = Inr (h', doc') \<Longrightarrow> group_of h doc gkvs v \<Longrightarrow>
   (cp, proxies, spd, man, op) \<in> set calls \<Longrightarrow>
   n \<in> set (names_to_add gkvs (map fst proxies) spd man) \<Longrightarrow>
   \<exists>a zs. list_at h' v = Some (a, zs) \<and> YStr n \<in> set zs"
proof (induction calls arbitrary: h doc)
  case Nil
  then show ?case by simp
next
  case (Cons c calls)
  obtain cp1 proxies1 spd1 man1 op1 where c: "c = (cp1, proxies1, spd1, man1, op1)" by (cases c)
  from Cons.prems(1) c obtain path h1 doc1 where
    u: "update_yaml h doc cp1 proxies1 spd1 man1 op1 = Inr (path, h1, doc1)"
    and r: "merge_calls h1 doc1 calls = Inr (h', doc')"
    by (auto split: sum.splits)
  from update_yaml_group_of [OF u Cons.prems(2)] have d1: "doc1 = doc" and g1: "group_of h1 doc gkvs v"
    by simp_all
  show ?case
  proof (cases "(cp, proxies, spd, man, op) \<in> set calls")
    case True
    from Cons.IH [OF r [unfolded d1] g1 True Cons.prems(4)] show ?thesis .
  next
    case False
    with Cons.prems(3) c have e: "proxies1 = proxies" "spd1 = spd" "man1 = man" by simp_all
    from update_yaml_adds [OF u Cons.prems(2)] e Cons.prems(4)
    obtain a zs where z: "list_at h1 v = Some (a, zs)" "YStr n \<in> set zs" by auto
    from keeps_list_at [OF merge_calls_keeps [OF r] z(1)] obtain zs' where
      "list_at h' v = Some (a, zs')" "grown zs zs'" by blast
    with z(2) show ?thesis by (auto simp: grown_def)
  qed
qed

section \<open>What a call does not touch\<close>

lemma reach_via:
  assumes "b \<in> reach h x" and "\<And>c. x = YRef c \<Longrightarrow> c \<in> reach h v"
  shows "b \<in> reach h v"
  using assms(1)
proof induction
  case (start a)
  then show ?case using assms(2) by simp
next
  case (in_list a xs b)
  then show ?case using reach.in_list by blast
next
  case (in_dict a kvs k w b)
  then show ?case using reach.in_dict by blast
qed

lemma tree_of_same:
  "(\<And>a. a \<in> reach h v \<Longrightarrow> obj_at h' a = obj_at h a) \<Longrightarrow> tree_of n h' v = tree_of n h v"
proof (induction n arbitrary: v)
  case 0
  then show ?case by (cases v) simp_all
next
  case (Suc n)
  show ?case
  proof (cases v)
    case (YRef a)
    then have a: "a \<in> reach h v" by (simp add: reach.start)
    with Suc.prems have e: "obj_at h' a = obj_at h a" by simp
    show ?thesis
    proof (cases "obj_at h a")
      case None
      with e YRef show ?thesis by simp
    next
      case (Some ob)
      show ?thesis
      proof (cases ob)
        case (OList xs)
        have "tree_of n h' x = tree_of n h x" if "x \<in> set xs" for x
        proof (rule Suc.IH)
          fix c assume c: "c \<in> reach h x"
          have "b \<in> reach h v" if "x = YRef b" for b
            using reach.in_list [OF a Some [unfolded OList], of b] that \<open>x \<in> set xs\<close> by simp
          with c have "c \<in> reach h v" by (rule reach_via)
          then show "obj_at h' c = obj_at h c" by (rule Suc.prems)
        qed
        then show ?thesis using e Some OList YRef by simp
      next
        case (ODict kvs)
        have "tree_of n h' x = tree_of n h x" if "(k, w) \<in> set kvs" "x = k \<or> x = w" for k w x
        proof (rule Suc.IH)
          fix c assume c: "c \<in> reach h x"
          have "b \<in> reach h v" if "x = YRef b" for b
            using reach.in_dict [OF a Some [unfolded ODict] \<open>(k, w) \<in> set kvs\<close>, of b] that
              \<open>x = k \<or> x = w\<close> by auto
          with c have "c \<in> reach h v" by (rule reach_via)
          then show "obj_at h' c = obj_at h c" by (rule Suc.prems)
        qed
        then have "map (\<lambda>(k, v). (tree_of n h' k, tree_of n h' v)) kvs
                 = map (\<lambda>(k, v). (tree_of n h k, tree_of n h v)) kvs"
          by (intro map_cong) auto
        then show ?thesis using e Some ODict YRef by simp
      qed
    qed
  qed simp_all
qed


lemma update_yaml_untouched:
  assumes u: "update_yaml h0 loaded cp proxies spd man op = Inr (path, h', data)"
    and r: "dict_at h0 loaded = Some (d, kvs)" "kvs \<noteq> []"
    and a: "a < length h0" "a \<noteq> d" "\<not> merge_target h0 kvs proxies a"
  shows "h' ! a = h0 ! a"
proof -
  let ?refs = "map (\<lambda>p. YRef (snd p)) proxies"
  from dict_at_ref [OF r(1)] have ld: "loaded = YRef d" "d < length h0" "h0 ! d = ODict kvs" by auto
  then have nf: "or_empty h0 loaded = (h0, loaded)"
    using r(2) by (simp add: or_empty_def falsy_def obj_at_def)
  from update_yaml_steps [OF u] obtain h1 d' kvs' h2 ps l xs where
    oe: "or_empty h0 loaded = (h1, data)" and da: "dict_at h1 data = Some (d', kvs')" and
    ep': "ensure_proxies h1 d' kvs' = (h2, ps)" and la: "list_at h2 ps = Some (l, xs)" and
    ag: "add_to_groups (h2[l := OList (xs @ ?refs)]) data (map fst proxies) spd man = Inr h'"
    by blast
  from oe nf have e1: "h1 = h0" and dd: "data = loaded" by simp_all
  from da e1 dd r(1) have e2: "d' = d" "kvs' = kvs" by simp_all
  from ep' e1 e2 have ep: "ensure_proxies h0 d kvs = (h2, ps)" by simp
  define h3 where "h3 = h2[l := OList (xs @ ?refs)]"
  have nt1: "map_of kvs (YStr (S ''proxies'')) \<noteq> Some (YRef a)"
    using a(3) by (simp add: merge_target_def)
  have nt2: "\<not> (dict_at h0 g = Some (gd, gkvs) \<and> map_of gkvs (YStr (S ''proxies'')) = Some (YRef a) \<and>
        (g \<in> set ?refs \<or>
         (\<exists>gl gs. map_of kvs (YStr (S ''proxy-groups'')) = Some groups \<and>
            list_at h0 groups = Some (gl, gs) \<and> g \<in> set gs)))" for g gd gkvs groups
    using a(3) unfolding merge_target_def by auto
  text \<open>The store before the loop, in its two forms.\<close>
  have pre: "h3 ! a = h0 ! a \<and> length h0 \<le> length h3 \<and>
     (\<forall>g gd gkvs. dict_at h3 g = Some (gd, gkvs) \<and>
        map_of gkvs (YStr (S ''proxies'')) = Some (YRef a) \<longrightarrow> dict_at h0 g = Some (gd, gkvs)) \<and>
     (\<forall>d3 kvs3. dict_at h3 loaded = Some (d3, kvs3) \<longrightarrow>
        map_of kvs3 (YStr (S ''proxy-groups'')) = map_of kvs (YStr (S ''proxy-groups''))) \<and>
     (\<forall>v gl gs g. list_at h3 v = Some (gl, gs) \<and> g \<in> set gs \<and> g \<notin> set ?refs \<longrightarrow>
        (\<exists>gs0. list_at h0 v = Some (gl, gs0) \<and> g \<in> set gs0))"
  proof -
    from ensure_proxies_cases [OF ep] show ?thesis
    proof
      assume old: "h2 = h0 \<and> map_of kvs (YStr (S ''proxies'')) = Some ps \<and> ps \<noteq> YNull"
      with la have l0: "list_at h0 ps = Some (l, xs)" by simp
      from list_at_ref [OF l0] have l: "ps = YRef l" "l < length h0" "h0 ! l = OList xs" by auto
      have h3: "h3 = h0[l := OList (xs @ ?refs)]" using old by (simp add: h3_def)
      have "a \<noteq> l" using nt1 old l(1) by auto
      then have 1: "h3 ! a = h0 ! a" by (simp add: h3)
      have nd: "dict_at h0 (YRef l) = None" using l by (simp add: dict_at_def obj_at_def)
      have 2: "dict_at h3 v = dict_at h0 v" for v
        using nd by (simp add: h3 dict_at_upd_list)
      have 3: "\<exists>gs0. list_at h0 v = Some (gl, gs0) \<and> g \<in> set gs0"
        if "list_at h3 v = Some (gl, gs)" "g \<in> set gs" "g \<notin> set ?refs" for v gl gs g
        using that l0 l by (cases "v = YRef l") (auto simp: h3 list_at_upd_list)
      show ?thesis using 1 2 3 r(1) by (auto simp: h3)
    next
      assume new: "h2 = h0[d := ODict (dict_set kvs (YStr (S ''proxies'')) (YRef (length h0)))] @ [OList []] \<and>
          ps = YRef (length h0) \<and>
          (map_of kvs (YStr (S ''proxies'')) = None \<or> map_of kvs (YStr (S ''proxies'')) = Some YNull)"
      let ?kvs2 = "dict_set kvs (YStr (S ''proxies'')) (YRef (length h0))"
      from new la have lx: "l = length h0" "xs = []"
        by (simp_all add: list_at_def obj_at_def nth_append)
      have h3: "h3 = h0[d := ODict ?kvs2] @ [OList ?refs]"
        using new lx by (simp add: h3_def list_update_append)
      have 1: "h3 ! a = h0 ! a" using a(1,2) by (simp add: h3 nth_append)
      have 2: "dict_at h3 v = (if v = YRef d then Some (d, ?kvs2) else dict_at h0 v)" for v
      proof (cases v)
        case (YRef x)
        then show ?thesis using ld(2)
          by (auto simp: h3 dict_at_def obj_at_def nth_append nth_list_update)
      qed (simp_all add: dict_at_def)
      have 3: "list_at h3 v = (if v = YRef (length h0) then Some (length h0, ?refs) else list_at h0 v)" for v
      proof (cases v)
        case (YRef x)
        then show ?thesis using ld(2,3)
          by (auto simp: h3 list_at_def obj_at_def nth_append nth_list_update)
      qed (simp_all add: list_at_def)
      have 4: "dict_at h0 g = Some (gd, gkvs)"
        if "dict_at h3 g = Some (gd, gkvs)" "map_of gkvs (YStr (S ''proxies'')) = Some (YRef a)" for g gd gkvs
      proof (cases "g = YRef d")
        case True
        with that 2 [of g] have "gkvs = ?kvs2" by simp
        with that(2) have "a = length h0" by (simp add: map_of_dict_set)
        with a(1) show ?thesis by simp
      next
        case False
        with that(1) 2 [of g] show ?thesis by simp
      qed
      have 5: "map_of kvs3 (YStr (S ''proxy-groups'')) = map_of kvs (YStr (S ''proxy-groups''))"
        if "dict_at h3 loaded = Some (d3, kvs3)" for d3 kvs3
        using that 2 [of loaded] ld(1) by (simp add: map_of_dict_set)
      have 6: "\<exists>gs0. list_at h0 v = Some (gl, gs0) \<and> g \<in> set gs0"
        if "list_at h3 v = Some (gl, gs)" "g \<in> set gs" "g \<notin> set ?refs" for v gl gs g
        using that 3 [of v] by (cases "v = YRef (length h0)") auto
      show ?thesis using 1 4 5 6 by (simp add: h3)
    qed
  qed
  have len3: "a < length h3" using pre a(1) by simp
  from add_to_groups_cases [OF ag [folded h3_def]] have "h' ! a = h3 ! a"
  proof
    assume "h' = h3"
    then show ?thesis by simp
  next
    assume "(spd \<or> man) \<and>
      (\<exists>d kvs groups gl gs. dict_at h3 data = Some (d, kvs) \<and>
         map_of kvs (YStr (S ''proxy-groups'')) = Some groups \<and>
         list_at h3 groups = Some (gl, gs) \<and> h' = merge_groups h3 gl 0 (map fst proxies) spd man)"
    then obtain d3 kvs3 groups gl gs where
      g3: "dict_at h3 loaded = Some (d3, kvs3)" "map_of kvs3 (YStr (S ''proxy-groups'')) = Some groups"
          "list_at h3 groups = Some (gl, gs)" "h' = merge_groups h3 gl 0 (map fst proxies) spd man"
      using dd by blast
    show ?thesis
    proof (rule ccontr)
      assume "h' ! a \<noteq> h3 ! a"
      with merge_groups_touched [OF len3, of gl 0 "map fst proxies" spd man] g3(4)
      obtain gs' j gd gkvs where t: "seq_of h3 gl = Some gs'" "j < length gs'"
        "dict_at h3 (gs' ! j) = Some (gd, gkvs)" "map_of gkvs (YStr (S ''proxies'')) = Some (YRef a)"
        by auto
      from t(1) g3(3) list_at_ref [OF g3(3)] have "gs' = gs" by (simp add: seq_of_list_at)
      with t(2) have mem: "gs' ! j \<in> set gs" by simp
      from pre t(3,4) have d0: "dict_at h0 (gs' ! j) = Some (gd, gkvs)" by blast
      from pre g3(1,2) have gr0: "map_of kvs (YStr (S ''proxy-groups'')) = Some groups" by simp
      show False
      proof (cases "gs' ! j \<in> set ?refs")
        case True
        with nt2 [of "gs' ! j" gd gkvs] d0 t(4) show False by simp
      next
        case False
        with pre g3(3) mem obtain gs0 where "list_at h0 groups = Some (gl, gs0)" "gs' ! j \<in> set gs0"
          by blast
        with nt2 [of "gs' ! j" gd gkvs groups] d0 t(4) gr0 show False by blast
      qed
    qed
  qed
  with pre show ?thesis by simp
qed


section \<open>A \<open>proxy-groups\<close> entry that is no sequence\<close>

text \<open>
  C4. When the loaded document is a mapping whose \<open>proxy-groups\<close> entry is a scalar or a
  mapping, and one of the two flags is set, \<open>update_yaml\<close> raises the type error, which
  names the key and the shape found under it, and nothing is written. The error names
  \<open>proxy-groups\<close>, unless the \<open>proxies\<close> entry is no sequence either: that entry is
  checked first and the error then names it.
\<close>

theorem update_yaml_groups_not_list:
  assumes "dict_at h0 loaded = Some (d, kvs)"
      and "map_of kvs (YStr (S ''proxy-groups'')) = Some v"
      and "allocated h0 v" and "list_at h0 v = None"
      and "add_to_speedtest \<or> add_to_manual"
  shows "\<exists>key k. update_yaml h0 loaded config_path proxies add_to_speedtest add_to_manual output_path
                  = Inl (TypeError key k) \<and>
           (key = S ''proxy-groups'' \<and> k = kind_of h0 v \<or>
            key = S ''proxies'' \<and>
            (\<exists>w. map_of kvs (YStr (S ''proxies'')) = Some w \<and> list_at h0 w = None \<and> k = kind_of h0 w))"
proof -
  from dict_at_ref [OF assms(1)] have ld: "loaded = YRef d" "d < length h0" "h0 ! d = ODict kvs" by auto
  have "kvs \<noteq> []" using assms(2) by auto
  then have nf: "or_empty h0 loaded = (h0, loaded)"
    using ld by (simp add: or_empty_def falsy_def obj_at_def)
  obtain h2 ps where ep: "ensure_proxies h0 d kvs = (h2, ps)" by (cases "ensure_proxies h0 d kvs")
  note keep = ensure_proxies_keeps [OF assms(1) [unfolded ld(1)] ep assms(3)]
  show ?thesis
  proof (cases "list_at h2 ps")
    case None
    then have u: "update_yaml h0 loaded config_path proxies add_to_speedtest add_to_manual output_path
        = Inl (TypeError (S ''proxies'') (kind_of h2 ps))"
      using nf assms(1) ep by (simp add: update_yaml_def)
    from None ep have old: "h2 = h0 \<and> map_of kvs (YStr (S ''proxies'')) = Some ps"
      by (auto simp: ensure_proxies_def Let_def list_at_def obj_at_app split: option.splits if_splits)
    with None u show ?thesis by auto
  next
    case (Some lx)
    obtain l xs where lx: "lx = (l, xs)" by (cases lx)
    define h3 where "h3 = h2[l := OList (xs @ map (\<lambda>p. YRef (snd p)) proxies)]"
    from Some lx have l: "list_at h2 ps = Some (l, xs)" by simp
    from list_at_ref [OF l] have psl: "ps = YRef l" "l < length h2" by auto
    from keep(4) obtain kvs2 where k2: "dict_at h2 (YRef d) = Some (d, kvs2)"
      "map_of kvs2 (YStr (S ''proxy-groups'')) = Some v" using assms(2) by auto
    have "l \<noteq> d" using l k2(1) psl by (auto simp: list_at_def dict_at_def split: option.splits yobj.splits)
    then have d3: "dict_at h3 loaded = Some (d, kvs2)"
      using k2(1) ld(1) by (simp add: h3_def dict_at_upd_list)
    have vl: "list_at h2 v = None" using keep(2) assms(4) by simp
    then have "v \<noteq> YRef l" using l psl by auto
    then have l3: "list_at h3 v = None" using vl by (simp add: h3_def list_at_upd_list)
    have k3: "kind_of h3 v = kind_of h0 v"
      unfolding h3_def using kind_of_upd_list [OF l [unfolded psl(1)]] keep(3) by simp
    have "add_to_groups h3 loaded (map fst proxies) add_to_speedtest add_to_manual
            = Inl (TypeError (S ''proxy-groups'') (kind_of h0 v))"
      using d3 k2(2) l3 k3 assms(5) by (simp add: add_to_groups_def)
    then have "update_yaml h0 loaded config_path proxies add_to_speedtest add_to_manual output_path
        = Inl (TypeError (S ''proxy-groups'') (kind_of h0 v))"
      using nf assms(1,5) ep l by (simp add: update_yaml_def h3_def)
    then show ?thesis by simp
  qed
qed


theorem update_yaml_groups_not_list_witness:
  "dict_at [ODict [(YStr (S ''proxy-groups''), YStr (S ''speed''))]] (YRef 0)
     = Some (0, [(YStr (S ''proxy-groups''), YStr (S ''speed''))]) \<and>
   update_yaml [ODict [(YStr (S ''proxy-groups''), YStr (S ''speed''))]] (YRef 0)
     (S ''config.yaml'') [(S ''A'', 1)] True False None
     = Inl (TypeError (S ''proxy-groups'') KStr)"
proof -
  let ?kvs = "[(YStr (S ''proxy-groups''), YStr (S ''speed''))]"
  have d: "dict_at [ODict ?kvs] (YRef 0) = Some (0, ?kvs)"
    by (simp add: dict_at_def obj_at_def)
  have m: "map_of ?kvs (YStr (S ''proxy-groups'')) = Some (YStr (S ''speed''))" by simp
  have a: "allocated [ODict ?kvs] (YStr (S ''speed''))" by (simp add: allocated_def)
  have l: "list_at [ODict ?kvs] (YStr (S ''speed'')) = None" by (simp add: list_at_def)
  have p: "map_of ?kvs (YStr (S ''proxies'')) = None" by (simp add: S_def)
  from update_yaml_groups_not_list [OF d m a l, of True False "S ''config.yaml''"
      "[(S ''A'', 1)]" None] p d
  show ?thesis by (simp add: kind_of_def)
qed

section \<open>Names are not added twice\<close>

text \<open>
  C5, as the code has it. Take any sequence of merge calls that all return, any list of
  the document (the \<open>proxies\<close> list of a group, say) and any name that occurs in it at
  most once before the calls. Then the name occurs in it at most once after them; and it
  occurs exactly once when the list is the \<open>proxies\<close> list of a group of the document and
  one of the calls had the name to add to that group (the name is one of its new proxies
  and its flag for the type of the group is set). So a name merged twice is there once.
  The merge compares names as they are and removes nothing: a name that was in the list
  several times before stays there as often.
\<close>

theorem merge_calls_duplicate_safe:
  assumes "merge_calls h doc calls = Inr (h', doc')"
    and "list_at h v = Some (a, xs)" and "count_list xs (YStr n) \<le> 1"
  shows "\<exists>zs. list_at h' v = Some (a, zs) \<and> count_list zs (YStr n) \<le> 1 \<and>
           (group_of h doc gkvs v \<and>
            (\<exists>(cp, proxies, spd, man, op) \<in> set calls.
               n \<in> set (names_to_add gkvs (map fst proxies) spd man))
            \<longrightarrow> count_list zs (YStr n) = 1)"
proof -
  from keeps_list_at [OF merge_calls_keeps [OF assms(1)] assms(2)] obtain zs where
    zs: "list_at h' v = Some (a, zs)" "grown xs zs" by blast
  from zs(2) have "count_list zs (YStr n) \<le> max 1 (count_list xs (YStr n))"
    by (simp add: grown_def)
  with assms(3) have le: "count_list zs (YStr n) \<le> 1" by simp
  have "count_list zs (YStr n) = 1"
    if "group_of h doc gkvs v" "(cp, proxies, spd, man, op) \<in> set calls"
       "n \<in> set (names_to_add gkvs (map fst proxies) spd man)" for cp proxies spd man op
  proof -
    from merge_calls_adds [OF assms(1) that] zs(1) have "YStr n \<in> set zs" by auto
    then have "count_list zs (YStr n) \<noteq> 0" by (simp add: count_list_0_iff)
    with le show ?thesis by simp
  qed
  with zs(1) le show ?thesis by (intro exI [of _ zs]) auto
qed


theorem merge_calls_duplicate_safe_witness:
  "list_at (group_doc [YStr (S ''DIRECT'')]) (YRef 4) = Some (4, [YStr (S ''DIRECT'')]) \<and>
   count_list [YStr (S ''DIRECT'')] (YStr (S ''A'')) \<le> 1 \<and>
   list_at ((group_doc [YStr (S ''DIRECT''), YStr (S ''A''), YStr (S ''B'')])
              [1 := OList [YRef 5, YRef 5, YRef 6]]) (YRef 4)
     = Some (4, [YStr (S ''DIRECT''), YStr (S ''A''), YStr (S ''B'')]) \<and>
   count_list [YStr (S ''DIRECT''), YStr (S ''A''), YStr (S ''B'')] (YStr (S ''A'')) = 1"
proof -
  let ?h = "group_doc [YStr (S ''DIRECT'')]"
  let ?gkvs = "[(YStr (S ''name''), YStr (S ''PROXY'')), (YStr (S ''type''), YStr (S ''select'')),
                (YStr (S ''proxies''), YRef 4)]"
  let ?calls = "[(S ''config.yaml'', [(S ''A'', 5)], False, True, None),
                 (S ''config_merged.yaml'', [(S ''A'', 5), (S ''B'', 6)], False, True, None)]"
  let ?h' = "(group_doc [YStr (S ''DIRECT''), YStr (S ''A''), YStr (S ''B'')])
               [1 := OList [YRef 5, YRef 5, YRef 6]]"
  have run: "merge_calls ?h (YRef 0) ?calls = Inr (?h', YRef 0)"
    by code_simp
  have la: "list_at ?h (YRef 4) = Some (4, [YStr (S ''DIRECT'')])"
    by (simp add: group_doc_def list_at_def obj_at_def)
  have cnt: "count_list [YStr (S ''DIRECT'')] (YStr (S ''A'')) \<le> 1"
    by (simp add: S_def)
  have g: "group_of ?h (YRef 0) ?gkvs (YRef 4)"
    unfolding group_of_def
    apply (rule exI [of _ 0])
    apply (rule exI [of _ "[(YStr (S ''proxies''), YRef 1), (YStr (S ''proxy-groups''), YRef 2)]"])
    apply (rule exI [of _ "YRef 2"])
    apply (rule exI [of _ 2])
    apply (rule exI [of _ "[YRef 3]"])
    apply (rule exI [of _ "YRef 3"])
    apply (rule exI [of _ 3])
    apply (rule exI [of _ 4])
    apply (rule exI [of _ "[YStr (S ''DIRECT'')]"])
    apply (simp add: group_doc_def dict_at_def list_at_def obj_at_def S_def)
    done
  have n: "\<exists>(cp, proxies, spd, man, op) \<in> set ?calls.
             S ''A'' \<in> set (names_to_add ?gkvs (map fst proxies) spd man)"
    by (simp add: names_to_add_def is_manual_group_def group_type_def py_str_def lower_def
          lower_cp_def S_def)
  from merge_calls_duplicate_safe [OF run la cnt, of ?gkvs] g n
  obtain zs where "list_at ?h' (YRef 4) = Some (4, zs)" "count_list zs (YStr (S ''A'')) = 1"
    by blast
  moreover have "list_at ?h' (YRef 4) = Some (4, [YStr (S ''DIRECT''), YStr (S ''A''), YStr (S ''B'')])"
    by (simp add: group_doc_def list_at_def obj_at_def)
  ultimately show ?thesis using la cnt by simp
qed

text \<open>
  The claim as the specification states it, with no condition on the list before the
  calls, fails on a group that lists \<open>A\<close> twice: after the merge of a proxy \<open>A\<close> the
  group still lists it twice.
\<close>

theorem merge_keeps_old_duplicates:
  "merge_calls (group_doc [YStr (S ''A''), YStr (S ''A'')]) (YRef 0)
     [(S ''config.yaml'', [(S ''A'', 5)], False, True, None)]
     = Inr ((group_doc [YStr (S ''A''), YStr (S ''A'')]) [1 := OList [YRef 5]], YRef 0) \<and>
   list_at ((group_doc [YStr (S ''A''), YStr (S ''A'')]) [1 := OList [YRef 5]]) (YRef 4)
     = Some (4, [YStr (S ''A''), YStr (S ''A'')]) \<and>
   count_list [YStr (S ''A''), YStr (S ''A'')] (YStr (S ''A'')) = 2"
proof -
  have "merge_calls (group_doc [YStr (S ''A''), YStr (S ''A'')]) (YRef 0)
     [(S ''config.yaml'', [(S ''A'', 5)], False, True, None)]
     = Inr ((group_doc [YStr (S ''A''), YStr (S ''A'')]) [1 := OList [YRef 5]], YRef 0)"
    by code_simp
  then show ?thesis by (simp add: group_doc_def list_at_def obj_at_def)
qed

section \<open>The rest of the document\<close>

text \<open>
  C6, as the code has it. When the loaded document is a mapping with at least one key
  and \<open>update_yaml\<close> returns, it dumps the object it loaded; every key of the root other
  than \<open>proxies\<close> is bound to the value it was bound to; and no object of the document
  has changed, other than the root, the \<open>proxies\<close> list and the \<open>proxies\<close> lists of the
  groups. So the content under a key is what it was, to any depth, when none of the
  objects it refers to is among these.
\<close>

theorem update_yaml_frame:
  assumes "update_yaml h0 loaded cp proxies spd man op = Inr (path, h', data)"
    and "dict_at h0 loaded = Some (d, kvs)" and "kvs \<noteq> []"
  shows "data = loaded \<and>
    (\<exists>kvs'. dict_at h' loaded = Some (d, kvs') \<and>
       (\<forall>k. k \<noteq> YStr (S ''proxies'') \<longrightarrow> map_of kvs' k = map_of kvs k)) \<and>
    (\<forall>a<length h0. a \<noteq> d \<and> \<not> merge_target h0 kvs proxies a \<longrightarrow> h' ! a = h0 ! a) \<and>
    (\<forall>k w. map_of kvs k = Some w \<and>
       (\<forall>a\<in>reach h0 w. a < length h0 \<and> a \<noteq> d \<and> \<not> merge_target h0 kvs proxies a)
       \<longrightarrow> (\<forall>n. tree_of n h' w = tree_of n h0 w))"
proof -
  note m = update_yaml_merged [OF assms]
  from m(2) have k: "keeps h0 h'" and rk: "root_kept h0 d h'" by (simp_all add: merged_def)
  have len: "length h0 \<le> length h'" using k by (simp add: keeps_def)
  from dict_at_ref [OF assms(2)] have ld: "loaded = YRef d" "d < length h0" "h0 ! d = ODict kvs" by auto
  from root_keptD [OF rk ld(2,3)] obtain kvs' where k': "h' ! d = ODict kvs'"
    "\<forall>k. k \<noteq> YStr (S ''proxies'') \<longrightarrow> map_of kvs' k = map_of kvs k"
    by blast
  have 2: "\<exists>kvs'. dict_at h' loaded = Some (d, kvs') \<and>
       (\<forall>k. k \<noteq> YStr (S ''proxies'') \<longrightarrow> map_of kvs' k = map_of kvs k)"
    using k' ld len by (intro exI [of _ kvs']) (simp add: dict_at_def obj_at_def)
  have 3: "h' ! a = h0 ! a" if "a < length h0" "a \<noteq> d" "\<not> merge_target h0 kvs proxies a" for a
    using update_yaml_untouched [OF assms that] .
  have 4: "tree_of n h' w = tree_of n h0 w"
    if "\<forall>a\<in>reach h0 w. a < length h0 \<and> a \<noteq> d \<and> \<not> merge_target h0 kvs proxies a" for w n
  proof (rule tree_of_same)
    fix a assume "a \<in> reach h0 w"
    with that have a: "a < length h0" "a \<noteq> d" "\<not> merge_target h0 kvs proxies a" by auto
    from 3 [OF a] a(1) len show "obj_at h' a = obj_at h0 a" by (simp add: obj_at_def)
  qed
  from m(1) 2 3 4 show ?thesis by blast
qed

lemma reach_extra_doc: "a \<in> reach (extra_doc (YRef 5)) (YRef 5) \<Longrightarrow> a = 5"
  by (induction rule: reach.induct) (auto simp: extra_doc_def obj_at_def)

lemma dicts_extra_doc:
  assumes "dict_at (extra_doc w) g = Some (gd, gkvs)"
  shows "map_of gkvs (YStr (S ''proxies'')) \<in> {Some (YRef 1), Some (YRef 4), None}"
proof -
  from dict_at_ref [OF assms] have g: "gd < length (extra_doc w)" "extra_doc w ! gd = ODict gkvs"
    by auto
  from g(1) have "gd = 0 \<or> gd = 1 \<or> gd = 2 \<or> gd = 3 \<or> gd = 4 \<or> gd = 5 \<or> gd = 6"
    by (auto simp: extra_doc_def)
  then show ?thesis using g(2) by (auto simp: extra_doc_def S_def)
qed

theorem update_yaml_frame_witness:
  "update_yaml (extra_doc (YRef 5)) (YRef 0) (S ''config.yaml'') [(S ''A'', 6)] False True None
     = Inr (S ''config_merged.yaml'',
            (extra_doc (YRef 5)) [1 := OList [YRef 6],
                                  4 := OList [YStr (S ''DIRECT''), YStr (S ''A'')]],
            YRef 0) \<and>
   tree_of 1 ((extra_doc (YRef 5)) [1 := OList [YRef 6],
                                     4 := OList [YStr (S ''DIRECT''), YStr (S ''A'')]]) (YRef 5)
     = tree_of 1 (extra_doc (YRef 5)) (YRef 5)"
proof -
  let ?h = "extra_doc (YRef 5)"
  let ?kvs = "[(YStr (S ''proxies''), YRef 1), (YStr (S ''proxy-groups''), YRef 2),
               (YStr (S ''rules''), YRef 5)]"
  let ?h' = "?h [1 := OList [YRef 6], 4 := OList [YStr (S ''DIRECT''), YStr (S ''A'')]]"
  have run: "update_yaml ?h (YRef 0) (S ''config.yaml'') [(S ''A'', 6)] False True None
     = Inr (S ''config_merged.yaml'', ?h', YRef 0)"
    by code_simp
  have r: "dict_at ?h (YRef 0) = Some (0, ?kvs)" "?kvs \<noteq> []"
    by (simp_all add: extra_doc_def dict_at_def obj_at_def)
  have w: "map_of ?kvs (YStr (S ''rules'')) = Some (YRef 5)" by (simp add: S_def)
  have "map_of gkvs (YStr (S ''proxies'')) \<noteq> Some (YRef 5)"
    if "dict_at ?h g = Some (gd, gkvs)" for g gd gkvs
    using dicts_extra_doc [OF that] by auto
  moreover have "map_of ?kvs (YStr (S ''proxies'')) \<noteq> Some (YRef 5)" by simp
  ultimately have nt: "\<not> merge_target ?h ?kvs [(S ''A'', 6)] 5"
    unfolding merge_target_def by blast
  have len: "length ?h = 7" by (simp add: extra_doc_def)
  have "\<forall>a\<in>reach ?h (YRef 5). a < length ?h \<and> a \<noteq> 0 \<and> \<not> merge_target ?h ?kvs [(S ''A'', 6)] a"
  proof
    fix a assume "a \<in> reach ?h (YRef 5)"
    then have "a = 5" by (rule reach_extra_doc)
    with nt len show "a < length ?h \<and> a \<noteq> 0 \<and> \<not> merge_target ?h ?kvs [(S ''A'', 6)] a" by simp
  qed
  with update_yaml_frame [OF run r] w
  have "\<forall>n. tree_of n ?h' (YRef 5) = tree_of n ?h (YRef 5)" by blast
  with run show ?thesis by blast
qed

text \<open>
  Without the condition the claim fails: an alias makes the list of members of a group
  the value of the key \<open>rules\<close> too, and after the merge the content under \<open>rules\<close> has
  the new name in it.
\<close>

theorem update_yaml_changes_aliased_key:
  "update_yaml (extra_doc (YRef 4)) (YRef 0) (S ''config.yaml'') [(S ''A'', 6)] False True None
     = Inr (S ''config_merged.yaml'',
            (extra_doc (YRef 4)) [1 := OList [YRef 6],
                                  4 := OList [YStr (S ''DIRECT''), YStr (S ''A'')]],
            YRef 0) \<and>
   map_of [(YStr (S ''proxies''), YRef 1), (YStr (S ''proxy-groups''), YRef 2),
           (YStr (S ''rules''), YRef 4)] (YStr (S ''rules'')) = Some (YRef 4) \<and>
   tree_of 1 (extra_doc (YRef 4)) (YRef 4) = TList [TStr (S ''DIRECT'')] \<and>
   tree_of 1 ((extra_doc (YRef 4)) [1 := OList [YRef 6],
                                     4 := OList [YStr (S ''DIRECT''), YStr (S ''A'')]]) (YRef 4)
     = TList [TStr (S ''DIRECT''), TStr (S ''A'')]"
proof -
  have "update_yaml (extra_doc (YRef 4)) (YRef 0) (S ''config.yaml'') [(S ''A'', 6)] False True None
     = Inr (S ''config_merged.yaml'',
            (extra_doc (YRef 4)) [1 := OList [YRef 6],
                                  4 := OList [YStr (S ''DIRECT''), YStr (S ''A'')]],
            YRef 0)"
    by code_simp
  moreover have "tree_of (Suc 0) (extra_doc (YRef 4)) (YRef 4) = TList [TStr (S ''DIRECT'')]"
    by (simp add: extra_doc_def obj_at_def)
  moreover have "tree_of (Suc 0) ((extra_doc (YRef 4)) [1 := OList [YRef 6],
                                     4 := OList [YStr (S ''DIRECT''), YStr (S ''A'')]]) (YRef 4)
     = TList [TStr (S ''DIRECT''), TStr (S ''A'')]"
    by (simp add: extra_doc_def obj_at_def)
  ultimately show ?thesis by (simp add: S_def)
qed


section \<open>Subscriptions in plain text\<close>



lemma linebreak_isspace: "linebreak c \<Longrightarrow> isspace c"
  by (auto simp: linebreak_def isspace_def)

lemma linebreak_crlf [simp]: "linebreak 10" "linebreak 13"
  by (simp_all add: linebreak_def)


















lemma S_Nil [simp]: "S [] = []"
  by (simp add: S_def)

lemma S_Cons [simp]: "S (c # cs) = of_char c # S cs"
  by (simp add: S_def)



section \<open>Base64 with and without padding\<close>

lemma b64_value_char: "i < 64 \<Longrightarrow> b64_value (b64_char i) = Some i"
  by (auto simp: b64_value_def b64_char_def)

lemma b64_char_props: "i < 64 \<Longrightarrow> b64_char i \<noteq> 61 \<and> b64_char i < 128 \<and> \<not> isspace (b64_char i)"
  by (auto simp: b64_char_def isspace_def)

lemma a2b3:
  assumes "a < 256" "b < 256" "c < 256"
  shows "a2b_base64 0 l p bin
           ([b64_char (a div 4), b64_char ((a mod 4) * 16 + b div 16),
             b64_char ((b mod 16) * 4 + c div 64), b64_char (c mod 64)] @ rest)
         = a2b_base64 0 0 0 (bin @ [a, b, c]) rest"
proof -
  have i: "a div 4 < 64" "(a mod 4) * 16 + b div 16 < 64" "(b mod 16) * 4 + c div 64 < 64" "c mod 64 < 64"
    using assms by auto
  have 1: "a div 4 * 4 + ((a mod 4) * 16 + b div 16) div 16 = a" using assms by auto
  have 2: "((a mod 4) * 16 + b div 16) mod 16 = b div 16" using assms by auto
  have 3: "b div 16 * 16 + ((b mod 16) * 4 + c div 64) div 4 = b" using assms by auto
  have 4: "((b mod 16) * 4 + c div 64) mod 4 = c div 64" using assms by auto
  have 5: "c div 64 * 64 + c mod 64 = c" by simp
  show ?thesis
    using b64_value_char [OF i(1)] b64_value_char [OF i(2)] b64_value_char [OF i(3)]
      b64_value_char [OF i(4)] b64_char_props [OF i(1)] b64_char_props [OF i(2)]
      b64_char_props [OF i(3)] b64_char_props [OF i(4)] 1 2 3 4 5
    by simp
qed

lemma a2b_encode:
  "\<forall>b\<in>set bs. b < 256 \<Longrightarrow> a2b_base64 0 l p bin (b64encode bs) = Some (bin @ bs)"
proof (induction bs arbitrary: l p bin rule: b64encode.induct)
  case 1
  then show ?case by simp
next
  case (2 a)
  then have a: "a < 256" by simp
  have i: "a div 4 < 64" "(a mod 4) * 16 < 64" using a by auto
  have 1: "a div 4 * 4 + ((a mod 4) * 16) div 16 = a" by auto
  show ?case
    using b64_value_char [OF i(1)] b64_value_char [OF i(2)] b64_char_props [OF i(1)]
      b64_char_props [OF i(2)] 1
    by simp
next
  case (3 a b)
  then have a: "a < 256" "b < 256" by simp_all
  have i: "a div 4 < 64" "(a mod 4) * 16 + b div 16 < 64" "(b mod 16) * 4 < 64" using a by auto
  have 1: "a div 4 * 4 + ((a mod 4) * 16 + b div 16) div 16 = a" using a by auto
  have 2: "((a mod 4) * 16 + b div 16) mod 16 = b div 16" using a by auto
  have 3: "b div 16 * 16 + ((b mod 16) * 4) div 4 = b" by auto
  show ?case
    using b64_value_char [OF i(1)] b64_value_char [OF i(2)] b64_value_char [OF i(3)]
      b64_char_props [OF i(1)] b64_char_props [OF i(2)] b64_char_props [OF i(3)] 1 2 3
    by simp
next
  case (4 a b c bs)
  then have a: "a < 256" "b < 256" "c < 256" and r: "\<forall>b\<in>set bs. b < 256" by simp_all
  from a2b3 [OF a, of l p bin "b64encode bs"] 4(1) [OF r, of 0 0 "bin @ [a, b, c]"]
  show ?case by simp
qed


lemma b64encode_chars: "\<forall>b\<in>set bs. b < 256 \<Longrightarrow> \<forall>c\<in>set (b64encode bs). c < 128 \<and> \<not> isspace c"
proof (induction bs rule: b64encode.induct)
  case 1
  then show ?case by simp
next
  case (2 a)
  then have a: "a < 256" by simp
  have i: "a div 4 < 64" "(a mod 4) * 16 < 64" using a by auto
  have "\<not> isspace 61" by (simp add: isspace_def)
  then show ?case using b64_char_props [OF i(1)] b64_char_props [OF i(2)] by simp
next
  case (3 a b)
  then have a: "a < 256" "b < 256" by simp_all
  have i: "a div 4 < 64" "(a mod 4) * 16 + b div 16 < 64" "(b mod 16) * 4 < 64" using a by auto
  have "\<not> isspace 61" by (simp add: isspace_def)
  then show ?case
    using b64_char_props [OF i(1)] b64_char_props [OF i(2)] b64_char_props [OF i(3)] by simp
next
  case (4 a b c bs)
  then have a: "a < 256" "b < 256" "c < 256" and r: "\<forall>b\<in>set bs. b < 256" by simp_all
  have i: "a div 4 < 64" "(a mod 4) * 16 + b div 16 < 64" "(b mod 16) * 4 + c div 64 < 64" "c mod 64 < 64"
    using a by auto
  show ?case
    using b64_char_props [OF i(1)] b64_char_props [OF i(2)] b64_char_props [OF i(3)]
      b64_char_props [OF i(4)] 4(1) [OF r] by simp
qed

lemma b64encode_Nil: "b64encode bs = [] \<longleftrightarrow> bs = []"
  by (cases bs rule: b64encode.cases) simp_all

lemma split_ws_from_plain:
  "\<forall>c\<in>set s. \<not> isspace c \<Longrightarrow> split_ws_from cur s = (if cur @ s = [] then [] else [cur @ s])"
  by (induction s arbitrary: cur) simp_all

lemma strip_plain:
  assumes "\<forall>c\<in>set s. \<not> isspace c"
  shows "strip s = s"
proof -
  have "dropWhile isspace t = t" if "\<forall>c\<in>set t. \<not> isspace c" for t
    using that by (cases t) simp_all
  from this [of s] this [of "rev s"] assms show ?thesis by (simp add: strip_def)
qed










section \<open>The Shadowsocks scenario\<close>



end
